theory Spec2Isabelle
  imports Complex_Main
begin

section \<open>Errors\<close>

text \<open>
  Every exception the modelled code can raise. The two \<^verbatim>\<open>ValueError\<close>s of
  \<^verbatim>\<open>set_distributions\<close> carry what their messages are formatted from; numpy's own
  \<^verbatim>\<open>ValueError\<close>s (reshape, broadcasting, unpacking) are \<open>ValueError\<close>.
\<close>

datatype error =
    KeyError string
  | StopIteration
  | AssertionError
  | TypeError
  | ValueError
  | AxisError
  | AttributeError
  | RecursionError
  | ZeroDivisionError
  | ValueError_missing_axes string "string set"
  | ValueError_wrong_size string nat nat

section \<open>Labeled arrays\<close>

text \<open>
  A numpy array is its shape together with its elements in row-major (C) order; a rank-0
  array (a numpy scalar) has the empty shape and one element. Elements are real numbers:
  the rounding of IEEE doubles is not part of the model.
\<close>

record ndarray =
  shape :: "nat list"
  flat :: "real list"

text \<open>\<^verbatim>\<open>class Distribution\<close>: \<^verbatim>\<open>probs\<close> and \<^verbatim>\<open>axes_labels\<close>.\<close>

record Distribution =
  probs :: ndarray
  axes_labels :: "string list"

section \<open>A model of the numpy operations the code uses\<close>

definition ndim :: "ndarray \<Rightarrow> nat" where
  "ndim a = length (shape a)"

text \<open>
  \<^verbatim>\<open>a.size\<close>: the number of elements the shape announces.
\<close>

definition np_size :: "ndarray \<Rightarrow> nat" where
  "np_size a = prod_list (shape a)"

text \<open>
  A well-formed array holds as many elements as its shape announces.
\<close>

definition valid_array :: "ndarray \<Rightarrow> bool" where
  "valid_array a = (length (flat a) = prod_list (shape a))"

text \<open>
  All multi-indices of a shape, in row-major order; the offset of a multi-index; the
  element at a multi-index.
\<close>

fun indices :: "nat list \<Rightarrow> nat list list" where
  "indices [] = [[]]"
| "indices (d # ds) = concat (map (\<lambda>i. map ((#) i) (indices ds)) [0..<d])"

definition ravel :: "nat list \<Rightarrow> nat list \<Rightarrow> nat" where
  "ravel s idx = foldl (\<lambda>acc (d, i). acc * d + i) 0 (zip s idx)"

definition item :: "ndarray \<Rightarrow> nat list \<Rightarrow> real" where
  "item a idx = flat a ! ravel (shape a) idx"

text \<open>
  \<^verbatim>\<open>a.reshape(newshape)\<close>: at most one entry \<open>-1\<close>, which stands for the size that
  makes the element counts agree; the elements keep their row-major order. A shape that
  does not fit raises \<^verbatim>\<open>ValueError\<close>.
\<close>

definition np_reshape :: "ndarray \<Rightarrow> int list \<Rightarrow> error + ndarray" where
  "np_reshape a newshape =
     (if (\<exists>d \<in> set newshape. d < -1) \<or> 1 < length (filter (\<lambda>d. d = -1) newshape) then Inl ValueError
      else
        let known = prod_list (map nat (filter (\<lambda>d. d \<noteq> -1) newshape)) in
        if -1 \<in> set newshape then
          (if known = 0 \<or> np_size a mod known \<noteq> 0 then Inl ValueError
           else Inr \<lparr>shape = map (\<lambda>d. if d = -1 then np_size a div known else nat d) newshape,
                     flat = flat a\<rparr>)
        else if known \<noteq> np_size a then Inl ValueError
        else Inr \<lparr>shape = map nat newshape, flat = flat a\<rparr>)"

text \<open>
  Broadcasting: shapes are aligned at their last axis, the shorter one is padded with
  ones on the left; two sizes agree when they are equal or one of them is 1. Shapes that
  do not agree raise \<^verbatim>\<open>ValueError\<close>.
\<close>

fun broadcast_dims :: "nat list \<Rightarrow> nat list \<Rightarrow> nat list option" where
  "broadcast_dims [] [] = Some []"
| "broadcast_dims (x # xs) (y # ys) =
     (case broadcast_dims xs ys of
        None \<Rightarrow> None
      | Some zs \<Rightarrow>
          if x = y then Some (x # zs)
          else if x = 1 then Some (y # zs)
          else if y = 1 then Some (x # zs)
          else None)"
| "broadcast_dims _ _ = None"

definition broadcast_shapes :: "nat list \<Rightarrow> nat list \<Rightarrow> nat list option" where
  "broadcast_shapes s t =
     broadcast_dims (replicate (length t - length s) 1 @ s) (replicate (length s - length t) 1 @ t)"

text \<open>
  The index into an operand for an index into the broadcast result: the trailing
  components, with 0 along every axis of size 1.
\<close>

definition project :: "nat list \<Rightarrow> nat list \<Rightarrow> nat list" where
  "project s idx = map (\<lambda>(d, i). if d = 1 then 0 else i) (zip s (drop (length idx - length s) idx))"

text \<open>
  \<^verbatim>\<open>a * b\<close> on arrays: a new array, the elementwise product of the broadcast operands.
\<close>

definition np_mul :: "ndarray \<Rightarrow> ndarray \<Rightarrow> error + ndarray" where
  "np_mul a b =
     (case broadcast_shapes (shape a) (shape b) of
        None \<Rightarrow> Inl ValueError
      | Some s \<Rightarrow>
          Inr \<lparr>shape = s,
               flat = map (\<lambda>idx. item a (project (shape a) idx) * item b (project (shape b) idx))
                        (indices s)\<rparr>)"

section \<open>The methods of \<^verbatim>\<open>Distribution\<close> and \<^verbatim>\<open>multiply\<close>\<close>

text \<open>
  \<^verbatim>\<open>get_axes\<close>: the dictionary from axis name to position, filled in the order of
  \<^verbatim>\<open>enumerate(self.axes_labels)\<close>; a name that occurs twice keeps its last position.
\<close>

definition get_axes :: "Distribution \<Rightarrow> (string \<rightharpoonup> nat)" where
  "get_axes d = fold (\<lambda>(axis, nm) m. m(nm \<mapsto> axis)) (enumerate 0 (axes_labels d)) Map.empty"

text \<open>
  \<^verbatim>\<open>get_other_axes_from\<close>: the positions whose name differs from \<^verbatim>\<open>axis_label\<close>.
\<close>

definition get_other_axes_from :: "Distribution \<Rightarrow> string \<Rightarrow> nat list" where
  "get_other_axes_from d axis_label =
     map fst (filter (\<lambda>(axis, nm). nm \<noteq> axis_label) (enumerate 0 (axes_labels d)))"

text \<open>
  \<^verbatim>\<open>multiply\<close>. \<^verbatim>\<open>next(iter(p_hi.get_axes()))\<close> is the first key of the dictionary,
  the first label of \<^verbatim>\<open>p_hi\<close>, and raises \<^verbatim>\<open>StopIteration\<close> when there is none;
  the lookup of that name in the axes of \<^verbatim>\<open>p_v_given_h\<close> raises \<^verbatim>\<open>KeyError\<close>;
  then the reshape (skipped for a rank-0 \<^verbatim>\<open>p_hi\<close>) and the product.
\<close>

definition multiply :: "Distribution \<Rightarrow> Distribution \<Rightarrow> error + Distribution" where
  "multiply p_v_given_h p_hi =
     (case axes_labels p_hi of
        [] \<Rightarrow> Inl StopIteration
      | hi # _ \<Rightarrow>
          (case get_axes p_v_given_h hi of
             None \<Rightarrow> Inl (KeyError hi)
           | Some axis \<Rightarrow>
               (case (if shape (probs p_hi) \<noteq> []
                      then np_reshape (probs p_hi)
                             (map (\<lambda>i. if i = axis then -1 else 1) [0..<ndim (probs p_v_given_h)])
                      else Inr (probs p_hi)) of
                  Inl e \<Rightarrow> Inl e
                | Inr reshaped_p_hi \<Rightarrow>
                    (case np_mul (probs p_v_given_h) reshaped_p_hi of
                       Inl e \<Rightarrow> Inl e
                     | Inr r \<Rightarrow> Inr \<lparr>probs = r, axes_labels = axes_labels p_v_given_h\<rparr>))))"

section \<open>Factor graph nodes\<close>

text \<open>
  Nodes are objects that refer to each other (a variable lists its factors, a factor its
  variables), so they live in a store, addressed by references. The class of an object
  is a tag; \<open>Other\<close> stands for any object that is not a node.
\<close>

datatype cls = Node | Variable | Factor | Other

record obj =
  klass :: cls
  name :: string
  neighbors :: "nat list"
  data :: "Distribution option"

type_synonym heap = "nat \<Rightarrow> obj"

text \<open>
  \<^verbatim>\<open>is_valid_neighbor\<close>: the base class raises (\<^verbatim>\<open>raise NotImplemented()\<close> calls
  an object that is not callable: a \<^verbatim>\<open>TypeError\<close>); \<^verbatim>\<open>Variable\<close> accepts instances
  of \<^verbatim>\<open>Factor\<close>, \<^verbatim>\<open>Factor\<close> accepts instances of \<^verbatim>\<open>Variable\<close>.
\<close>

definition is_valid_neighbor :: "heap \<Rightarrow> nat \<Rightarrow> nat \<Rightarrow> error + bool" where
  "is_valid_neighbor h self neighbor =
     (case klass (h self) of
        Variable \<Rightarrow> Inr (klass (h neighbor) = Factor)
      | Factor \<Rightarrow> Inr (klass (h neighbor) = Variable)
      | _ \<Rightarrow> Inl TypeError)"

text \<open>
  \<^verbatim>\<open>add_neighbor\<close>: the assertion, then the append. The result is the outcome
  (\<open>None\<close>: no exception) and the store as the call leaves it.
\<close>

definition add_neighbor :: "heap \<Rightarrow> nat \<Rightarrow> nat \<Rightarrow> error option \<times> heap" where
  "add_neighbor h self neighbor =
     (case is_valid_neighbor h self neighbor of
        Inl e \<Rightarrow> (Some e, h)
      | Inr ok \<Rightarrow>
          if ok
          then (None, h(self := (h self)\<lparr>neighbors := neighbors (h self) @ [neighbor]\<rparr>))
          else (Some AssertionError, h))"

section \<open>Parsing a model string\<close>

text \<open>\<^verbatim>\<open>str.split(sep)\<close> for a one-character separator: empty pieces are kept.\<close>

fun split :: "char \<Rightarrow> string \<Rightarrow> string list" where
  "split c [] = [[]]"
| "split c (x # xs) =
     (if x = c then [] # split c xs
      else (case split c xs of
              [] \<Rightarrow> [[x]]
            | y # ys \<Rightarrow> (x # y) # ys))"

record ParsedTerm =
  pt_term :: string
  var_name :: "string list"
  given :: "string list"

text \<open>
  \<^verbatim>\<open>_parse_term\<close>, on a non-empty string: the assertion on the parentheses, then the
  split at \<^verbatim>\<open>|\<close>, whose unpacking into two names raises \<^verbatim>\<open>ValueError\<close> on more
  than two pieces.
\<close>

definition parse_term :: "string \<Rightarrow> error + (string list \<times> string list)" where
  "parse_term t =
     (if \<not> (hd t = CHR ''('' \<and> last t = CHR '')'') then Inl AssertionError
      else
        let term_variables = butlast (tl t) in
        if CHR ''|'' \<in> set term_variables then
          (case split CHR ''|'' term_variables of
             [var, gvn] \<Rightarrow> Inr (split CHR '','' var, split CHR '','' gvn)
           | _ \<Rightarrow> Inl ValueError)
        else Inr (split CHR '','' term_variables, []))"

fun parse_terms :: "string list \<Rightarrow> error + ParsedTerm list" where
  "parse_terms [] = Inr []"
| "parse_terms (t # ts) =
     (case parse_term t of
        Inl e \<Rightarrow> Inl e
      | Inr (var, gvn) \<Rightarrow>
          (case parse_terms ts of
             Inl e \<Rightarrow> Inl e
           | Inr ps \<Rightarrow> Inr (\<lparr>pt_term = CHR ''p'' # t, var_name = var, given = gvn\<rparr> # ps)))"

definition parse_model_string_into_terms :: "string \<Rightarrow> error + ParsedTerm list" where
  "parse_model_string_into_terms model_string =
     parse_terms (filter (\<lambda>t. t \<noteq> []) (split CHR ''p'' model_string))"

section \<open>Building the graph\<close>

text \<open>The store with its allocation pointer: every reference below it is an object.\<close>

record store =
  cells :: heap
  next_ref :: nat

definition new_node :: "cls \<Rightarrow> string \<Rightarrow> store \<Rightarrow> nat \<times> store" where
  "new_node c n s =
     (next_ref s,
      \<lparr>cells = (cells s)(next_ref s := \<lparr>klass = c, name = n, neighbors = [], data = None\<rparr>),
       next_ref = Suc (next_ref s)\<rparr>)"

text \<open>Step 2 of \<^verbatim>\<open>parse_model_into_variables_and_factors\<close>: one Variable per new name.\<close>

fun declare_variables :: "string list \<Rightarrow> (string \<rightharpoonup> nat) \<Rightarrow> store \<Rightarrow> (string \<rightharpoonup> nat) \<times> store" where
  "declare_variables [] vars s = (vars, s)"
| "declare_variables (t # ts) vars s =
     (if t \<in> dom vars then declare_variables ts vars s
      else (case new_node Variable t s of
              (r, s') \<Rightarrow> declare_variables ts (vars(t \<mapsto> r)) s'))"

text \<open>Step 3, the inner loop: both directions of every edge, each through \<^verbatim>\<open>add_neighbor\<close>.\<close>

fun connect :: "nat \<Rightarrow> string list \<Rightarrow> (string \<rightharpoonup> nat) \<Rightarrow> heap \<Rightarrow> error + heap" where
  "connect new_factor [] vars h = Inr h"
| "connect new_factor (v # vs) vars h =
     (case vars v of
        None \<Rightarrow> Inl (KeyError v)
      | Some var \<Rightarrow>
          (case add_neighbor h new_factor var of
             (Some e, _) \<Rightarrow> Inl e
           | (None, h1) \<Rightarrow>
               (case add_neighbor h1 var new_factor of
                  (Some e, _) \<Rightarrow> Inl e
                | (None, h2) \<Rightarrow> connect new_factor vs vars h2)))"

fun make_factors :: "ParsedTerm list \<Rightarrow> (string \<rightharpoonup> nat) \<Rightarrow> store \<Rightarrow> error + (nat list \<times> store)" where
  "make_factors [] vars s = Inr ([], s)"
| "make_factors (p # ps) vars s =
     (case new_node Factor (pt_term p) s of
        (new_factor, s1) \<Rightarrow>
          (case connect new_factor (var_name p @ given p) vars (cells s1) of
             Inl e \<Rightarrow> Inl e
           | Inr h \<Rightarrow>
               (case make_factors ps vars (s1\<lparr>cells := h\<rparr>) of
                  Inl e \<Rightarrow> Inl e
                | Inr (fs, s2) \<Rightarrow> Inr (new_factor # fs, s2))))"

record PGM =
  factors :: "nat list"
  variables :: "string \<rightharpoonup> nat"

definition parse_model_into_variables_and_factors ::
    "string \<Rightarrow> store \<Rightarrow> error + (PGM \<times> store)" where
  "parse_model_into_variables_and_factors model_string s =
     (case parse_model_string_into_terms model_string of
        Inl e \<Rightarrow> Inl e
      | Inr parsed_terms \<Rightarrow>
          (case declare_variables (concat (map var_name parsed_terms)) Map.empty s of
             (vars, s1) \<Rightarrow>
               (case make_factors parsed_terms vars s1 of
                  Inl e \<Rightarrow> Inl e
                | Inr (fs, s2) \<Rightarrow> Inr (\<lparr>factors = fs, variables = vars\<rparr>, s2))))"

definition empty_store :: store where
  "empty_store = \<lparr>cells = (\<lambda>_. \<lparr>klass = Other, name = [], neighbors = [], data = None\<rparr>),
                  next_ref = 0\<rparr>"

text \<open>\<^verbatim>\<open>PGM.from_string\<close>, in a fresh store.\<close>

definition from_string :: "string \<Rightarrow> error + (PGM \<times> store)" where
  "from_string model_string = parse_model_into_variables_and_factors model_string empty_store"

text \<open>\<^verbatim>\<open>variable_from_name\<close>: a dictionary lookup.\<close>

definition variable_from_name :: "PGM \<Rightarrow> string \<Rightarrow> error + nat" where
  "variable_from_name pgm v = (case variables pgm v of None \<Rightarrow> Inl (KeyError v) | Some r \<Rightarrow> Inr r)"

section \<open>Assigning the distributions\<close>

text \<open>
  The inner loop of \<^verbatim>\<open>set_distributions\<close> over
  \<^verbatim>\<open>zip(factor_data.axes_labels, factor_data.probs.shape)\<close>: the first size seen for a
  variable is recorded, a later different size raises.
\<close>

fun check_dims :: "string \<Rightarrow> (string \<rightharpoonup> nat) \<Rightarrow> (string \<times> nat) list \<Rightarrow> error + (string \<rightharpoonup> nat)" where
  "check_dims fname var_dims [] = Inr var_dims"
| "check_dims fname var_dims ((v, dimn) # rest) =
     (case var_dims v of
        None \<Rightarrow> check_dims fname (var_dims(v \<mapsto> dimn)) rest
      | Some d \<Rightarrow>
          if d \<noteq> dimn then Inl (ValueError_wrong_size fname dimn d)
          else check_dims fname var_dims rest)"

definition neighbor_names :: "heap \<Rightarrow> nat \<Rightarrow> string set" where
  "neighbor_names h factor = set (map (\<lambda>v. name (h v)) (neighbors (h factor)))"

text \<open>
  The outer loop, one factor after the other: the lookup \<^verbatim>\<open>data[factor.name]\<close>, the
  comparison of the two name sets, the sizes, and then the assignment
  \<^verbatim>\<open>factor.data = data[factor.name]\<close>, inside the loop. The result is the outcome, the
  sizes recorded so far and the store as the call leaves it.
\<close>

fun set_distributions_loop ::
    "(string \<rightharpoonup> Distribution) \<Rightarrow> (string \<rightharpoonup> nat) \<Rightarrow> heap \<Rightarrow> nat list
       \<Rightarrow> error option \<times> (string \<rightharpoonup> nat) \<times> heap" where
  "set_distributions_loop dat var_dims h [] = (None, var_dims, h)"
| "set_distributions_loop dat var_dims h (factor # rest) =
     (case dat (name (h factor)) of
        None \<Rightarrow> (Some (KeyError (name (h factor))), var_dims, h)
      | Some factor_data \<Rightarrow>
          if set (axes_labels factor_data) \<noteq> neighbor_names h factor
          then (Some (ValueError_missing_axes (name (h factor))
                        (neighbor_names h factor - set (axes_labels factor_data))), var_dims, h)
          else
            (case check_dims (name (h factor)) var_dims
                    (zip (axes_labels factor_data) (shape (probs factor_data))) of
               Inl e \<Rightarrow> (Some e, var_dims, h)
             | Inr var_dims' \<Rightarrow>
                 set_distributions_loop dat var_dims'
                   (h(factor := (h factor)\<lparr>data := Some factor_data\<rparr>)) rest))"

definition set_distributions :: "PGM \<Rightarrow> (string \<rightharpoonup> Distribution) \<Rightarrow> heap \<Rightarrow> error option \<times> heap" where
  "set_distributions pgm dat h =
     (case set_distributions_loop dat Map.empty h (factors pgm) of
        (r, _, h') \<Rightarrow> (r, h'))"

section \<open>Invariants and the running example\<close>

text \<open>The bipartite invariant: a Variable lists only Factors, a Factor only Variables.\<close>

definition bipartite :: "heap \<Rightarrow> bool" where
  "bipartite h =
     (\<forall>r. (klass (h r) = Variable \<longrightarrow> (\<forall>n \<in> set (neighbors (h r)). klass (h n) = Factor)) \<and>
          (klass (h r) = Factor \<longrightarrow> (\<forall>n \<in> set (neighbors (h r)). klass (h n) = Variable)))"

text \<open>No object refers to a reference that is not allocated yet.\<close>

definition closed_store :: "store \<Rightarrow> bool" where
  "closed_store s = (\<forall>r. \<forall>n \<in> set (neighbors (cells s r)). n < next_ref s)"

text \<open>The model string of the notebook's example and the graph built from it.\<close>

definition chain_model :: string where
  "chain_model = ''p(h1)p(h2|h1)p(v1|h1)p(v2|h2)''"

definition chain_graph :: "PGM \<times> store" where
  "chain_graph =
     (case from_string chain_model of
        Inr g \<Rightarrow> g
      | Inl _ \<Rightarrow> (\<lparr>factors = [], variables = Map.empty\<rparr>, empty_store))"

definition chain_pgm :: PGM where
  "chain_pgm = fst chain_graph"

definition chain_heap :: heap where
  "chain_heap = cells (snd chain_graph)"

section \<open>Auxiliary functions for the analysis of \<^verbatim>\<open>set_distributions\<close>\<close>

text \<open>The assignment \<^verbatim>\<open>factor.data = data[factor.name]\<close> on its own.\<close>

definition attach :: "(string \<rightharpoonup> Distribution) \<Rightarrow> nat \<Rightarrow> heap \<Rightarrow> heap" where
  "attach dat factor h = h(factor := (h factor)\<lparr>data := dat (name (h factor))\<rparr>)"

text \<open>
  The checks of one loop iteration of \<^verbatim>\<open>set_distributions\<close>, without the assignment:
  they read only the name and the neighbors of the factor, which the assignment leaves alone.
\<close>

definition check_factor ::
    "(string \<rightharpoonup> Distribution) \<Rightarrow> (string \<rightharpoonup> nat) \<Rightarrow> heap \<Rightarrow> nat \<Rightarrow> error + (string \<rightharpoonup> nat)" where
  "check_factor dat var_dims h factor =
     (case dat (name (h factor)) of
        None \<Rightarrow> Inl (KeyError (name (h factor)))
      | Some factor_data \<Rightarrow>
          if set (axes_labels factor_data) \<noteq> neighbor_names h factor
          then Inl (ValueError_missing_axes (name (h factor))
                      (neighbor_names h factor - set (axes_labels factor_data)))
          else check_dims (name (h factor)) var_dims
                 (zip (axes_labels factor_data) (shape (probs factor_data))))"

text \<open>
  The checks of the whole loop on a fixed store: the outcome, the sizes recorded and the
  number of factors that passed before the loop stopped.
\<close>

fun check_all ::
    "(string \<rightharpoonup> Distribution) \<Rightarrow> (string \<rightharpoonup> nat) \<Rightarrow> heap \<Rightarrow> nat list
       \<Rightarrow> error option \<times> (string \<rightharpoonup> nat) \<times> nat" where
  "check_all dat var_dims h [] = (None, var_dims, 0)"
| "check_all dat var_dims h (factor # rest) =
     (case check_factor dat var_dims h factor of
        Inl e \<Rightarrow> (Some e, var_dims, 0)
      | Inr var_dims' \<Rightarrow>
          (case check_all dat var_dims' h rest of (r, vd, k) \<Rightarrow> (r, vd, Suc k)))"


text \<open>
  The sizes the tensor assigned to a factor gives to variables: the pairs of
  \<^verbatim>\<open>zip(axes_labels, probs.shape)\<close>.
\<close>

definition factor_dims :: "(string \<rightharpoonup> Distribution) \<Rightarrow> heap \<Rightarrow> nat \<Rightarrow> (string \<times> nat) set" where
  "factor_dims dat h factor =
     (case dat (name (h factor)) of
        None \<Rightarrow> {}
      | Some factor_data \<Rightarrow> set (zip (axes_labels factor_data) (shape (probs factor_data))))"

section \<open>The distributions of the running example, and defective variants\<close>

text \<open>
  The tensors of the notebook's example, with \<open>p(h1)\<close> as the vector \<open>[0.2, 0.8]\<close>.
\<close>

definition p_h1 :: Distribution where
  "p_h1 = \<lparr>probs = \<lparr>shape = [2], flat = [2/10, 8/10]\<rparr>, axes_labels = [''h1'']\<rparr>"

definition p_h2_given_h1 :: Distribution where
  "p_h2_given_h1 =
     \<lparr>probs = \<lparr>shape = [2, 2], flat = [5/10, 2/10, 5/10, 8/10]\<rparr>, axes_labels = [''h2'', ''h1'']\<rparr>"

definition p_v1_given_h1 :: Distribution where
  "p_v1_given_h1 =
     \<lparr>probs = \<lparr>shape = [2, 2], flat = [6/10, 1/10, 4/10, 9/10]\<rparr>, axes_labels = [''v1'', ''h1'']\<rparr>"

definition p_v2_given_h2 :: Distribution where
  "p_v2_given_h2 = \<lparr>probs = probs p_v1_given_h1, axes_labels = [''v2'', ''h2'']\<rparr>"

definition chain_data :: "string \<rightharpoonup> Distribution" where
  "chain_data =
     [''p(h1)'' \<mapsto> p_h1, ''p(h2|h1)'' \<mapsto> p_h2_given_h1,
      ''p(v1|h1)'' \<mapsto> p_v1_given_h1, ''p(v2|h2)'' \<mapsto> p_v2_given_h2]"

text \<open>
  Variants: the entry of the last factor missing; a wrong axis name for the first factor
  and the entry of the second missing; a second factor that lacks an axis and gives
  \<open>h1\<close> three states; a third factor that gives \<open>h1\<close> three states.
\<close>

definition data_without_last :: "string \<rightharpoonup> Distribution" where
  "data_without_last = chain_data(''p(v2|h2)'' := None)"

definition data_bad_axes_and_missing :: "string \<rightharpoonup> Distribution" where
  "data_bad_axes_and_missing =
     chain_data(''p(h1)'' \<mapsto> p_h1\<lparr>axes_labels := [''x'']\<rparr>, ''p(h2|h1)'' := None)"

definition data_bad_axes_and_size :: "string \<rightharpoonup> Distribution" where
  "data_bad_axes_and_size =
     chain_data(''p(h2|h1)'' \<mapsto> \<lparr>probs = \<lparr>shape = [3], flat = [1/3, 1/3, 1/3]\<rparr>, axes_labels = [''h1'']\<rparr>)"

definition data_bad_size :: "string \<rightharpoonup> Distribution" where
  "data_bad_size =
     chain_data(''p(v1|h1)'' \<mapsto>
       \<lparr>probs = \<lparr>shape = [2, 3], flat = [6/10, 1/10, 1/10, 4/10, 9/10, 9/10]\<rparr>,
        axes_labels = [''v1'', ''h1'']\<rparr>)"

text \<open>
  The last variant with, in addition, the entry of the last factor missing.
\<close>

definition data_bad_size_and_missing :: "string \<rightharpoonup> Distribution" where
  "data_bad_size_and_missing = data_bad_size(''p(v2|h2)'' := None)"

section \<open>The tensors of the notebook's multiplication example\<close>

text \<open>
  \<open>p(v1|h1)\<close> over three states of \<open>h1\<close>, \<open>p(h1)\<close>, the product the notebook prints
  for them, and \<open>p(h1)\<close> relabelled with an axis name the first tensor does not have.
\<close>

definition nb_p_v1_given_h1 :: Distribution where
  "nb_p_v1_given_h1 =
     \<lparr>probs = \<lparr>shape = [2, 3], flat = [4/10, 8/10, 9/10, 6/10, 2/10, 1/10]\<rparr>,
      axes_labels = [''v1'', ''h1'']\<rparr>"

definition nb_p_h1 :: Distribution where
  "nb_p_h1 = \<lparr>probs = \<lparr>shape = [3], flat = [6/10, 3/10, 1/10]\<rparr>, axes_labels = [''h1'']\<rparr>"

definition nb_p_v1_h1 :: Distribution where
  "nb_p_v1_h1 =
     \<lparr>probs = \<lparr>shape = [2, 3], flat = [24/100, 24/100, 9/100, 36/100, 6/100, 1/100]\<rparr>,
      axes_labels = [''v1'', ''h1'']\<rparr>"

definition nb_p_h2 :: Distribution where
  "nb_p_h2 = nb_p_h1\<lparr>axes_labels := [''h2'']\<rparr>"

text \<open>
  A vector over \<open>h1\<close> with two states, against the three states that the first tensor
  gives to \<open>h1\<close>.
\<close>

definition nb_p_h1_short :: Distribution where
  "nb_p_h1_short = \<lparr>probs = \<lparr>shape = [2], flat = [6/10, 4/10]\<rparr>, axes_labels = [''h1'']\<rparr>"

section \<open>The message engine\<close>

text \<open>
  What the engine works on: the objects of the graph and the dictionary
  \<^verbatim>\<open>self.messages\<close>, from (sender name, receiver name) to a message. An operation
  returns its outcome, a value or the exception raised, and the state it leaves.
\<close>

record 'm world =
  objects :: heap
  messages :: "string \<times> string \<rightharpoonup> 'm"

type_synonym 'm outcome = "(error + 'm) \<times> 'm world"

text \<open>
  \<^verbatim>\<open>variable_to_factor_messages\<close> and \<^verbatim>\<open>factor_to_variable_message\<close>, as in the
  source: a cached message is returned as it is; otherwise the private method computes
  it, the result is stored under the key and returned. The private method is a parameter
  here: what the two functions do with the cache does not depend on it.
\<close>

definition variable_to_factor_messages ::
    "('m world \<Rightarrow> nat \<Rightarrow> nat \<Rightarrow> 'm outcome) \<Rightarrow> 'm world \<Rightarrow> nat \<Rightarrow> nat \<Rightarrow> 'm outcome" where
  "variable_to_factor_messages compute w variable factor =
     (let message_name = (name (objects w variable), name (objects w factor)) in
      case messages w message_name of
        Some m \<Rightarrow> (Inr m, w)
      | None \<Rightarrow>
          (case compute w variable factor of
             (Inl e, w') \<Rightarrow> (Inl e, w')
           | (Inr m, w') \<Rightarrow> (Inr m, w'\<lparr>messages := (messages w')(message_name \<mapsto> m)\<rparr>)))"

definition factor_to_variable_message ::
    "('m world \<Rightarrow> nat \<Rightarrow> nat \<Rightarrow> 'm outcome) \<Rightarrow> 'm world \<Rightarrow> nat \<Rightarrow> nat \<Rightarrow> 'm outcome" where
  "factor_to_variable_message compute w factor variable =
     (let message_name = (name (objects w factor), name (objects w variable)) in
      case messages w message_name of
        Some m \<Rightarrow> (Inr m, w)
      | None \<Rightarrow>
          (case compute w factor variable of
             (Inl e, w') \<Rightarrow> (Inl e, w')
           | (Inr m, w') \<Rightarrow> (Inr m, w'\<lparr>messages := (messages w')(message_name \<mapsto> m)\<rparr>)))"

text \<open>
  Modelled from the spec: the bodies of \<^verbatim>\<open>_variable_to_factor_messages\<close>,
  \<^verbatim>\<open>_factor_to_variable_messages\<close> and \<^verbatim>\<open>marginal\<close> are left to the reader in both
  copies of the notebook (a comment and a bare \<^verbatim>\<open>return\<close>), so they follow section 4.3
  of the specification; sum_out and normalize follow section 4.1. A message is the array
  that the notebook's recorded cache shows (a rank-0 array for the scalar 1.0); its axis is
  the variable at its end.
\<close>

definition scalar :: "real \<Rightarrow> ndarray" where
  "scalar x = \<lparr>shape = [], flat = [x]\<rparr>"

text \<open>
  Modelled from the spec: the product of a list of messages, the multiplicative
  identity (scalar 1.0) for the empty list.
\<close>

fun np_prod :: "ndarray list \<Rightarrow> error + ndarray" where
  "np_prod [] = Inr (scalar 1)"
| "np_prod (m # ms) =
     (case np_prod ms of
        Inl e \<Rightarrow> Inl e
      | Inr p \<Rightarrow> np_mul m p)"

text \<open>
  Modelled from the spec: sum_out, the sum over every axis except the one kept, is
  \<^verbatim>\<open>np.sum(a, axis=axes)\<close> over the axes of \<^verbatim>\<open>get_other_axes_from\<close>. The axes are
  removed from the shape, and each element of the result sums the elements of \<open>a\<close> that
  agree with it on the axes kept; an axis beyond the rank raises \<^verbatim>\<open>AxisError\<close>.
\<close>

definition np_sum :: "ndarray \<Rightarrow> nat list \<Rightarrow> error + ndarray" where
  "np_sum a axes =
     (if \<exists>ax \<in> set axes. ndim a \<le> ax then Inl AxisError
      else if \<not> distinct axes then Inl ValueError
      else
        let keep = filter (\<lambda>i. i \<notin> set axes) [0..<ndim a];
            rshape = map ((!) (shape a)) keep
        in Inr \<lparr>shape = rshape,
                flat = map (\<lambda>kidx. sum_list (map (item a)
                                (filter (\<lambda>idx. map ((!) idx) keep = kidx) (indices (shape a)))))
                         (indices rshape)\<rparr>)"

text \<open>
  Modelled from the spec: normalize divides by the grand total and fails when the total
  is zero.
\<close>

definition normalize :: "ndarray \<Rightarrow> error + ndarray" where
  "normalize a =
     (if sum_list (flat a) = 0 then Inl ZeroDivisionError
      else Inr \<lparr>shape = shape a, flat = map (\<lambda>x. x / sum_list (flat a)) (flat a)\<rparr>)"

text \<open>
  Modelled from the spec: the incoming messages of a node, \<open>send w sender receiver\<close> for
  a list of senders, requested one after the other; the first exception ends the loop.
\<close>

fun incoming ::
    "('m world \<Rightarrow> nat \<Rightarrow> nat \<Rightarrow> 'm outcome) \<Rightarrow> 'm world \<Rightarrow> nat list \<Rightarrow> nat
       \<Rightarrow> (error + 'm list) \<times> 'm world" where
  "incoming send w [] receiver = (Inr [], w)"
| "incoming send w (sender # rest) receiver =
     (case send w sender receiver of
        (Inl e, w') \<Rightarrow> (Inl e, w')
      | (Inr m, w') \<Rightarrow>
          (case incoming send w' rest receiver of
             (Inl e, w'') \<Rightarrow> (Inl e, w'')
           | (Inr ms, w'') \<Rightarrow> (Inr (m # ms), w'')))"

text \<open>
  Modelled from the spec: msg(V\<rightarrow>F) is the product, over every factor G \<noteq> F
  that neighbors V, of the incoming message msg(G\<rightarrow>V), each requested through
  \<^verbatim>\<open>factor_to_variable_message\<close>.
\<close>

definition priv_variable_to_factor_messages ::
    "(ndarray world \<Rightarrow> nat \<Rightarrow> nat \<Rightarrow> ndarray outcome) \<Rightarrow> ndarray world \<Rightarrow> nat \<Rightarrow> nat
       \<Rightarrow> ndarray outcome" where
  "priv_variable_to_factor_messages factor_to_variable w variable factor =
     (case incoming factor_to_variable w
             (filter (\<lambda>g. g \<noteq> factor) (neighbors (objects w variable))) variable of
        (Inl e, w') \<Rightarrow> (Inl e, w')
      | (Inr ms, w') \<Rightarrow> (np_prod ms, w'))"

text \<open>
  Modelled from the spec: the body of the loop of \<^verbatim>\<open>_factor_to_variable_messages\<close>.
  For each neighbor variable U the message msg(U\<rightarrow>F), labelled with the name of
  U, is multiplied in with \<^verbatim>\<open>multiply\<close>.
\<close>

fun multiply_in ::
    "(ndarray world \<Rightarrow> nat \<Rightarrow> nat \<Rightarrow> ndarray outcome) \<Rightarrow> ndarray world \<Rightarrow> nat \<Rightarrow> nat list
       \<Rightarrow> Distribution \<Rightarrow> (error + Distribution) \<times> ndarray world" where
  "multiply_in variable_to_factor w factor [] factor_dist = (Inr factor_dist, w)"
| "multiply_in variable_to_factor w factor (u # rest) factor_dist =
     (case variable_to_factor w u factor of
        (Inl e, w') \<Rightarrow> (Inl e, w')
      | (Inr m, w') \<Rightarrow>
          (case multiply factor_dist \<lparr>probs = m, axes_labels = [name (objects w u)]\<rparr> of
             Inl e \<Rightarrow> (Inl e, w')
           | Inr d \<Rightarrow> multiply_in variable_to_factor w' factor rest d))"

text \<open>
  Modelled from the spec: in \<^verbatim>\<open>_factor_to_variable_messages\<close>, the loop body and the
  final sum over every axis except the target's. From the source: the new Distribution
  made of \<^verbatim>\<open>factor.data.probs\<close> and \<^verbatim>\<open>factor.data.axes_labels\<close> (an
  \<^verbatim>\<open>AttributeError\<close> when no distribution is set) and the loop over the neighbors
  that skips the one named like the target.
\<close>

definition priv_factor_to_variable_messages ::
    "(ndarray world \<Rightarrow> nat \<Rightarrow> nat \<Rightarrow> ndarray outcome) \<Rightarrow> ndarray world \<Rightarrow> nat \<Rightarrow> nat
       \<Rightarrow> ndarray outcome" where
  "priv_factor_to_variable_messages variable_to_factor w factor variable =
     (case data (objects w factor) of
        None \<Rightarrow> (Inl AttributeError, w)
      | Some d \<Rightarrow>
          (case multiply_in variable_to_factor w factor
                  (filter (\<lambda>u. name (objects w u) \<noteq> name (objects w variable))
                     (neighbors (objects w factor)))
                  \<lparr>probs = probs d, axes_labels = axes_labels d\<rparr> of
             (Inl e, w') \<Rightarrow> (Inl e, w')
           | (Inr factor_dist, w') \<Rightarrow>
               (np_sum (probs factor_dist)
                  (get_other_axes_from factor_dist (name (objects w variable))), w')))"

text \<open>
  Modelled from the spec: marginal(V) is the product of msg(F\<rightarrow>V) over every
  neighboring factor F of V, normalized; a 1-D labeled tensor over V.
\<close>

definition priv_marginal ::
    "(ndarray world \<Rightarrow> nat \<Rightarrow> nat \<Rightarrow> ndarray outcome) \<Rightarrow> ndarray world \<Rightarrow> nat
       \<Rightarrow> (error + Distribution) \<times> ndarray world" where
  "priv_marginal factor_to_variable w variable =
     (case incoming factor_to_variable w (neighbors (objects w variable)) variable of
        (Inl e, w') \<Rightarrow> (Inl e, w')
      | (Inr ms, w') \<Rightarrow>
          (case np_prod ms of
             Inl e \<Rightarrow> (Inl e, w')
           | Inr unnorm \<Rightarrow>
               (case normalize unnorm of
                  Inl e \<Rightarrow> (Inl e, w')
                | Inr p \<Rightarrow> (Inr \<lparr>probs = p, axes_labels = [name (objects w variable)]\<rparr>, w'))))"

text \<open>
  The mutual recursion of the two public methods through the private ones. Python
  bounds the depth of recursion and raises \<^verbatim>\<open>RecursionError\<close> beyond it; \<open>depth\<close> is
  that bound, counted in calls of the public methods.
\<close>

fun send_variable_to_factor :: "nat \<Rightarrow> ndarray world \<Rightarrow> nat \<Rightarrow> nat \<Rightarrow> ndarray outcome"
and send_factor_to_variable :: "nat \<Rightarrow> ndarray world \<Rightarrow> nat \<Rightarrow> nat \<Rightarrow> ndarray outcome" where
  "send_variable_to_factor 0 w variable factor = (Inl RecursionError, w)"
| "send_variable_to_factor (Suc depth) w variable factor =
     variable_to_factor_messages
       (priv_variable_to_factor_messages (\<lambda>w' f v. send_factor_to_variable depth w' f v))
       w variable factor"
| "send_factor_to_variable 0 w factor variable = (Inl RecursionError, w)"
| "send_factor_to_variable (Suc depth) w factor variable =
     factor_to_variable_message
       (priv_factor_to_variable_messages (\<lambda>w' v f. send_variable_to_factor depth w' v f))
       w factor variable"

definition marginal :: "nat \<Rightarrow> ndarray world \<Rightarrow> nat \<Rightarrow> (error + Distribution) \<times> ndarray world" where
  "marginal depth w variable =
     priv_marginal (\<lambda>w' f v. send_factor_to_variable depth w' f v) w variable"

text \<open>
  The example graph with its distributions set and an empty cache, and the view of a
  cache at a list of keys.
\<close>

definition chain_world :: "ndarray world" where
  "chain_world =
     \<lparr>objects = snd (set_distributions chain_pgm chain_data chain_heap), messages = Map.empty\<rparr>"

definition cache_view :: "ndarray world \<Rightarrow> (string \<times> string) list \<Rightarrow> ndarray option list" where
  "cache_view w ks = map (messages w) ks"

text \<open>
  The life of an engine is a sequence of calls of its three public methods, each on the
  state the previous one left: \<^verbatim>\<open>marginal(variable)\<close>,
  \<^verbatim>\<open>variable_to_factor_messages(variable, factor)\<close> and
  \<^verbatim>\<open>factor_to_variable_message(factor, variable)\<close>, each with the recursion depth that is
  left to it. \<open>serve r w\<close> is the state that the call \<open>r\<close> leaves, whatever its outcome.
\<close>

datatype request =
  Marginal nat nat
| VariableToFactor nat nat nat
| FactorToVariable nat nat nat

fun serve :: "request \<Rightarrow> ndarray world \<Rightarrow> ndarray world" where
  "serve (Marginal depth variable) w = snd (marginal depth w variable)"
| "serve (VariableToFactor depth variable factor) w = snd (send_variable_to_factor depth w variable factor)"
| "serve (FactorToVariable depth factor variable) w = snd (send_factor_to_variable depth w factor variable)"

section \<open>Relations between states of the engine\<close>

text \<open>
  The objects are the same and every cached message is still cached, unchanged.
\<close>

definition extends :: "'m world \<Rightarrow> 'm world \<Rightarrow> bool" where
  "extends w w' = (objects w' = objects w \<and> messages w \<subseteq>\<^sub>m messages w')"

text \<open>
  A way of sending messages that only extends the state and leaves every message it
  returns in the cache, under (sender name, receiver name).
\<close>

definition caching :: "('m world \<Rightarrow> nat \<Rightarrow> nat \<Rightarrow> 'm outcome) \<Rightarrow> bool" where
  "caching send =
     (\<forall>w a b. extends w (snd (send w a b)) \<and>
        (\<forall>m w'. send w a b = (Inr m, w') \<longrightarrow>
           messages w' (name (objects w a), name (objects w b)) = Some m))"

text \<open>
  \<open>send'\<close> does what \<open>send\<close> does wherever \<open>send\<close> does not run out of depth.
\<close>

definition refines ::
    "('m world \<Rightarrow> nat \<Rightarrow> nat \<Rightarrow> 'm outcome) \<Rightarrow> ('m world \<Rightarrow> nat \<Rightarrow> nat \<Rightarrow> 'm outcome) \<Rightarrow> bool" where
  "refines send send' =
     (\<forall>w a b. fst (send w a b) \<noteq> Inl RecursionError \<longrightarrow> send' w a b = send w a b)"

section \<open>\<^verbatim>\<open>multiply\<close> on Python objects\<close>

text \<open>
  To see what \<^verbatim>\<open>multiply\<close> writes, tensors are objects here: an array object, a
  list object for the labels, and a \<^verbatim>\<open>Distribution\<close> object that refers to one of
  each. The counters give the next free references.
\<close>

record pymem =
  arrays :: "nat \<Rightarrow> ndarray"
  label_lists :: "nat \<Rightarrow> string list"
  tensors :: "nat \<Rightarrow> nat \<times> nat"
  next_array :: nat
  next_tensor :: nat

text \<open>
  The value of the \<^verbatim>\<open>Distribution\<close> object at a reference.
\<close>

definition load :: "pymem \<Rightarrow> nat \<Rightarrow> Distribution" where
  "load s d = \<lparr>probs = arrays s (fst (tensors s d)), axes_labels = label_lists s (snd (tensors s d))\<rparr>"

text \<open>
  \<^verbatim>\<open>multiply\<close> on references. The product \<^verbatim>\<open>p_v_given_h.probs * reshaped_p_hi\<close>
  is a new array (the reshape is a view of \<^verbatim>\<open>p_hi.probs\<close> that is only read), and
  \<^verbatim>\<open>Distribution(..., p_v_given_h.axes_labels)\<close> is a new object that refers to the new
  array and to the label list of \<^verbatim>\<open>p_v_given_h\<close> itself. An exception leaves the store
  as it was.
\<close>

definition multiply_at :: "pymem \<Rightarrow> nat \<Rightarrow> nat \<Rightarrow> (error + nat) \<times> pymem" where
  "multiply_at s p_v_given_h p_hi =
     (case multiply (load s p_v_given_h) (load s p_hi) of
        Inl e \<Rightarrow> (Inl e, s)
      | Inr r \<Rightarrow>
          (Inr (next_tensor s),
           s\<lparr>arrays := (arrays s)(next_array s := probs r),
             tensors := (tensors s)(next_tensor s := (next_array s, snd (tensors s p_v_given_h))),
             next_array := Suc (next_array s),
             next_tensor := Suc (next_tensor s)\<rparr>))"

text \<open>
  A \<^verbatim>\<open>Distribution\<close> object that exists, with an array that exists.
\<close>

definition allocated :: "pymem \<Rightarrow> nat \<Rightarrow> bool" where
  "allocated s d = (d < next_tensor s \<and> fst (tensors s d) < next_array s)"

text \<open>
  A store holding the two tensors of the notebook's multiplication example, and the
  state of the engine after the marginal of \<open>v2\<close> on the example graph.
\<close>

definition nb_mem :: pymem where
  "nb_mem =
     \<lparr>arrays = (\<lambda>a. if a = 0 then probs nb_p_v1_given_h1 else probs nb_p_h1),
      label_lists = (\<lambda>l. if l = 0 then axes_labels nb_p_v1_given_h1 else axes_labels nb_p_h1),
      tensors = (\<lambda>d. if d = 0 then (0, 0) else (1, 1)),
      next_array = 2,
      next_tensor = 2\<rparr>"

definition after_v2 :: "ndarray world" where
  "after_v2 = snd (marginal 6 chain_world 3)"

section \<open>The bipartite invariant\<close>

lemma add_neighbor_None:
  "add_neighbor h a b = (None, h') \<Longrightarrow>
     h' = h(a := (h a)\<lparr>neighbors := neighbors (h a) @ [b]\<rparr>) \<and>
     (klass (h a) = Variable \<and> klass (h b) = Factor \<or> klass (h a) = Factor \<and> klass (h b) = Variable)"
  by (auto simp: add_neighbor_def is_valid_neighbor_def split: cls.splits if_splits)

lemma add_neighbor_klass: "add_neighbor h a b = (r, h') \<Longrightarrow> klass (h' x) = klass (h x)"
  by (auto simp: add_neighbor_def is_valid_neighbor_def split: cls.splits if_splits)

lemma add_neighbor_bipartite:
  assumes "bipartite h" "add_neighbor h a b = (None, h')"
  shows "bipartite h'"
proof -
  from add_neighbor_None[OF assms(2)]
  have h': "h' = h(a := (h a)\<lparr>neighbors := neighbors (h a) @ [b]\<rparr>)"
    and k: "klass (h a) = Variable \<and> klass (h b) = Factor \<or> klass (h a) = Factor \<and> klass (h b) = Variable"
    by simp_all
  have kl: "klass (h' x) = klass (h x)" for x by (simp add: h')
  have nb: "set (neighbors (h' r)) \<subseteq> (if r = a then insert b (set (neighbors (h r))) else set (neighbors (h r)))" for r
    by (simp add: h')
  show ?thesis
    unfolding bipartite_def
  proof (intro allI conjI impI ballI)
    fix r n assume 1: "klass (h' r) = Variable" and 2: "n \<in> set (neighbors (h' r))"
    have 3: "klass (h r) = Variable" using 1 kl by simp
    have "klass (h n) = Factor"
    proof (cases "r = a \<and> n = b")
      case True
      then show ?thesis using k 3 by auto
    next
      case False
      then have "n \<in> set (neighbors (h r))" using nb[of r] 2 by (auto split: if_splits)
      then show ?thesis using assms(1) 3 unfolding bipartite_def by blast
    qed
    then show "klass (h' n) = Factor" using kl by simp
  next
    fix r n assume 1: "klass (h' r) = Factor" and 2: "n \<in> set (neighbors (h' r))"
    have 3: "klass (h r) = Factor" using 1 kl by simp
    have "klass (h n) = Variable"
    proof (cases "r = a \<and> n = b")
      case True
      then show ?thesis using k 3 by auto
    next
      case False
      then have "n \<in> set (neighbors (h r))" using nb[of r] 2 by (auto split: if_splits)
      then show ?thesis using assms(1) 3 unfolding bipartite_def by blast
    qed
    then show "klass (h' n) = Variable" using kl by simp
  qed
qed

lemma add_neighbor_closed:
  assumes "closed_store \<lparr>cells = h, next_ref = n\<rparr>" "add_neighbor h a b = (None, h')" "b < n"
  shows "closed_store \<lparr>cells = h', next_ref = n\<rparr>"
proof -
  from add_neighbor_None[OF assms(2)]
  have h': "h' = h(a := (h a)\<lparr>neighbors := neighbors (h a) @ [b]\<rparr>)" by simp
  have nb: "set (neighbors (h' r)) \<subseteq> insert b (set (neighbors (h r)))" for r
    by (auto simp: h')
  have "m < n" if "m \<in> set (neighbors (h' r))" for m r
  proof -
    from that nb[of r] have "m = b \<or> m \<in> set (neighbors (h r))" by blast
    then show ?thesis using assms(1,3) unfolding closed_store_def by auto
  qed
  then show ?thesis unfolding closed_store_def by simp
qed

lemma connect_inv:
  "connect f vs vars h = Inr h' \<Longrightarrow> bipartite h \<Longrightarrow> closed_store \<lparr>cells = h, next_ref = n\<rparr> \<Longrightarrow>
     f < n \<Longrightarrow> (\<forall>r \<in> ran vars. r < n) \<Longrightarrow>
     bipartite h' \<and> closed_store \<lparr>cells = h', next_ref = n\<rparr>"
proof (induction vs arbitrary: h)
  case Nil
  then show ?case by simp
next
  case (Cons v vs)
  from Cons.prems(1) obtain var h1 h2 where
    v: "vars v = Some var" and a1: "add_neighbor h f var = (None, h1)"
    and a2: "add_neighbor h1 var f = (None, h2)"
    and c: "connect f vs vars h2 = Inr h'"
    by (auto split: option.splits prod.splits)
  have varn: "var < n" using v Cons.prems(5) by (auto simp: ran_def)
  have b1: "bipartite h1" using add_neighbor_bipartite[OF Cons.prems(2) a1] .
  have b2: "bipartite h2" using add_neighbor_bipartite[OF b1 a2] .
  have c1: "closed_store \<lparr>cells = h1, next_ref = n\<rparr>"
    using add_neighbor_closed[OF Cons.prems(3) a1 varn] .
  have c2: "closed_store \<lparr>cells = h2, next_ref = n\<rparr>"
    using add_neighbor_closed[OF c1 a2 Cons.prems(4)] .
  show ?case
    using Cons.IH[OF c b2 c2 Cons.prems(4,5)] .
qed

lemma new_node_inv:
  assumes "bipartite (cells s)" "closed_store s" "new_node c n s = (r, s')"
  shows "bipartite (cells s') \<and> closed_store s' \<and> r < next_ref s' \<and> next_ref s \<le> next_ref s'"
proof -
  have s': "s' = \<lparr>cells = (cells s)(next_ref s := \<lparr>klass = c, name = n, neighbors = [], data = None\<rparr>),
       next_ref = Suc (next_ref s)\<rparr>" and r: "r = next_ref s"
    using assms(3) by (auto simp: new_node_def)
  have nn: "\<And>x m. m \<in> set (neighbors (cells s x)) \<Longrightarrow> m \<noteq> next_ref s"
    using assms(2) by (auto simp: closed_store_def)
  have c': "cells s' = (cells s)(next_ref s := \<lparr>klass = c, name = n, neighbors = [], data = None\<rparr>)"
    by (simp add: s')
  have old: "cells s' m = cells s m" if "m \<in> set (neighbors (cells s x))" for m x
    using nn[OF that] by (simp add: c')
  have "bipartite (cells s')"
    unfolding bipartite_def
  proof (intro allI conjI impI ballI)
    fix x m assume 1: "klass (cells s' x) = Variable" and 2: "m \<in> set (neighbors (cells s' x))"
    have x: "x \<noteq> next_ref s" using 2 by (auto simp: c')
    then have "cells s' x = cells s x" by (simp add: c')
    then have "klass (cells s x) = Variable" "m \<in> set (neighbors (cells s x))" using 1 2 by simp_all
    then show "klass (cells s' m) = Factor"
      using assms(1) old[of m x] unfolding bipartite_def by metis
  next
    fix x m assume 1: "klass (cells s' x) = Factor" and 2: "m \<in> set (neighbors (cells s' x))"
    have x: "x \<noteq> next_ref s" using 2 by (auto simp: c')
    then have "cells s' x = cells s x" by (simp add: c')
    then have "klass (cells s x) = Factor" "m \<in> set (neighbors (cells s x))" using 1 2 by simp_all
    then show "klass (cells s' m) = Variable"
      using assms(1) old[of m x] unfolding bipartite_def by metis
  qed
  moreover have "closed_store s'"
    unfolding closed_store_def
  proof (intro allI ballI)
    fix x m assume 2: "m \<in> set (neighbors (cells s' x))"
    have x: "x \<noteq> next_ref s" using 2 by (auto simp: c')
    then have "cells s' x = cells s x" by (simp add: c')
    then have "m < next_ref s" using 2 assms(2) unfolding closed_store_def by auto
    then show "m < next_ref s'" by (simp add: s')
  qed
  ultimately show ?thesis by (simp add: s' r)
qed

lemma declare_variables_inv:
  "declare_variables ts vars s = (vars', s') \<Longrightarrow> bipartite (cells s) \<Longrightarrow> closed_store s \<Longrightarrow>
     (\<forall>r \<in> ran vars. r < next_ref s) \<Longrightarrow>
     bipartite (cells s') \<and> closed_store s' \<and> (\<forall>r \<in> ran vars'. r < next_ref s')"
proof (induction ts arbitrary: vars s)
  case Nil
  then show ?case by simp
next
  case (Cons t ts)
  show ?case
  proof (cases "t \<in> dom vars")
    case True
    then show ?thesis using Cons by simp
  next
    case False
    obtain r s1 where nn: "new_node Variable t s = (r, s1)" by (cases "new_node Variable t s")
    from new_node_inv[OF Cons.prems(2,3) nn]
    have i1: "bipartite (cells s1)" "closed_store s1" "r < next_ref s1" "next_ref s \<le> next_ref s1"
      by auto
    have d: "declare_variables ts (vars(t \<mapsto> r)) s1 = (vars', s')"
      using Cons.prems(1) False nn by simp
    have rn: "\<forall>x \<in> ran (vars(t \<mapsto> r)). x < next_ref s1"
      using Cons.prems(4) i1(3,4) False by (auto simp: ran_def split: if_splits)
    show ?thesis using Cons.IH[OF d i1(1,2) rn] .
  qed
qed

lemma make_factors_inv:
  "make_factors ps vars s = Inr (fs, s') \<Longrightarrow> bipartite (cells s) \<Longrightarrow> closed_store s \<Longrightarrow>
     (\<forall>r \<in> ran vars. r < next_ref s) \<Longrightarrow> bipartite (cells s')"
proof (induction ps arbitrary: s fs)
  case Nil
  then show ?case by simp
next
  case (Cons p ps)
  obtain f s1 where nn: "new_node Factor (pt_term p) s = (f, s1)"
    by (cases "new_node Factor (pt_term p) s")
  from Cons.prems(1) nn obtain h fs' where
    c: "connect f (var_name p @ given p) vars (cells s1) = Inr h"
    and m: "make_factors ps vars (s1\<lparr>cells := h\<rparr>) = Inr (fs', s')"
    by (auto split: sum.splits prod.splits)
  from new_node_inv[OF Cons.prems(2,3) nn]
  have i1: "bipartite (cells s1)" "closed_store s1" "f < next_ref s1" "next_ref s \<le> next_ref s1"
    by auto
  have rn: "\<forall>x \<in> ran vars. x < next_ref s1" using Cons.prems(4) i1(4) by auto
  have cs: "closed_store \<lparr>cells = cells s1, next_ref = next_ref s1\<rparr>"
    using i1(2) by (simp add: closed_store_def)
  from connect_inv[OF c i1(1) cs i1(3) rn]
  have i2: "bipartite h" "closed_store \<lparr>cells = h, next_ref = next_ref s1\<rparr>" by auto
  have b3: "bipartite (cells (s1\<lparr>cells := h\<rparr>))" using i2(1) by simp
  have c3: "closed_store (s1\<lparr>cells := h\<rparr>)" using i2(2) by (simp add: closed_store_def)
  have r3: "\<forall>x \<in> ran vars. x < next_ref (s1\<lparr>cells := h\<rparr>)" using rn by simp
  show ?case
    using Cons.IH[OF m b3 c3 r3] .
qed

lemma from_string_bipartite:
  assumes "from_string m = Inr (pgm, s)"
  shows "bipartite (cells s)"
proof -
  from assms obtain pts vars s1 where
    d: "declare_variables (concat (map var_name pts)) Map.empty empty_store = (vars, s1)"
    and mf: "make_factors pts vars s1 = Inr (factors pgm, s)"
    by (auto simp: from_string_def parse_model_into_variables_and_factors_def
             split: sum.splits prod.splits)
  have b0: "bipartite (cells empty_store)" by (simp add: bipartite_def empty_store_def)
  have c0: "closed_store empty_store" by (simp add: closed_store_def empty_store_def)
  from declare_variables_inv[OF d b0 c0]
  have "bipartite (cells s1)" "closed_store s1" "\<forall>r \<in> ran vars. r < next_ref s1" by auto
  from make_factors_inv[OF mf this] show ?thesis .
qed

lemma chain_from_string: "from_string chain_model = Inr chain_graph"
proof -
  have "\<not> isl (from_string chain_model)" by code_simp
  then show ?thesis by (cases "from_string chain_model") (simp_all add: chain_graph_def)
qed

text \<open>
  C8. \<^verbatim>\<open>add_neighbor\<close> on a Variable given a non-Factor, or on a Factor given a
  non-Variable, raises \<^verbatim>\<open>AssertionError\<close> and leaves every neighbor list as it was;
  a successful \<^verbatim>\<open>add_neighbor\<close> keeps the bipartite invariant; and every graph that
  \<^verbatim>\<open>PGM.from_string\<close> returns satisfies it: each Variable lists only Factors and
  each Factor only Variables.
\<close>

theorem add_neighbor_enforces_bipartite:
  "(klass (h self) = Variable \<and> klass (h nb) \<noteq> Factor \<or>
    klass (h self) = Factor \<and> klass (h nb) \<noteq> Variable
      \<longrightarrow> add_neighbor h self nb = (Some AssertionError, h)) \<and>
   (bipartite h \<and> add_neighbor h self nb = (None, h') \<longrightarrow> bipartite h') \<and>
   (from_string m = Inr (pgm, s) \<longrightarrow> bipartite (cells s))"
proof (intro conjI impI)
  assume "klass (h self) = Variable \<and> klass (h nb) \<noteq> Factor \<or>
    klass (h self) = Factor \<and> klass (h nb) \<noteq> Variable"
  then show "add_neighbor h self nb = (Some AssertionError, h)"
    by (auto simp: add_neighbor_def is_valid_neighbor_def)
next
  assume "bipartite h \<and> add_neighbor h self nb = (None, h')"
  then show "bipartite h'" using add_neighbor_bipartite by blast
next
  assume "from_string m = Inr (pgm, s)"
  then show "bipartite (cells s)" by (rule from_string_bipartite)
qed

theorem add_neighbor_enforces_bipartite_witness:
  "klass (chain_heap 0) = Variable \<and> klass (chain_heap 2) \<noteq> Factor \<and>
   add_neighbor chain_heap 0 2 = (Some AssertionError, chain_heap) \<and>
   klass (chain_heap 4) = Factor \<and> klass (chain_heap 2) = Variable \<and>
   bipartite chain_heap \<and>
   add_neighbor chain_heap 4 2 =
     (None, chain_heap(4 := (chain_heap 4)\<lparr>neighbors := neighbors (chain_heap 4) @ [2]\<rparr>)) \<and>
   bipartite (chain_heap(4 := (chain_heap 4)\<lparr>neighbors := neighbors (chain_heap 4) @ [2]\<rparr>)) \<and>
   from_string chain_model = Inr chain_graph"
proof -
  have k0: "klass (chain_heap 0) = Variable" by code_simp
  have k2: "klass (chain_heap 2) = Variable" by code_simp
  have k4: "klass (chain_heap 4) = Factor" by code_simp
  have fs: "from_string chain_model = Inr (chain_pgm, snd chain_graph)"
    by (simp add: chain_from_string chain_pgm_def)
  have a: "add_neighbor chain_heap 4 2 =
     (None, chain_heap(4 := (chain_heap 4)\<lparr>neighbors := neighbors (chain_heap 4) @ [2]\<rparr>))"
    by (simp add: add_neighbor_def is_valid_neighbor_def k2 k4)
  have b: "bipartite chain_heap"
    using add_neighbor_enforces_bipartite
            [of chain_heap 0 2 chain_heap chain_model chain_pgm "snd chain_graph"] fs
    by (simp add: chain_heap_def)
  show ?thesis
    using add_neighbor_enforces_bipartite
            [of chain_heap 0 2 chain_heap chain_model chain_pgm "snd chain_graph"]
          add_neighbor_enforces_bipartite
            [of chain_heap 4 2
                "chain_heap(4 := (chain_heap 4)\<lparr>neighbors := neighbors (chain_heap 4) @ [2]\<rparr>)"
                chain_model chain_pgm "snd chain_graph"]
          k0 k2 k4 a b chain_from_string
    by simp
qed

section \<open>Assigning the distributions: what the loop does\<close>

lemma attach_fields [simp]:
  "name (attach dat f h x) = name (h x)"
  "neighbors (attach dat f h x) = neighbors (h x)"
  "klass (attach dat f h x) = klass (h x)"
  by (simp_all add: attach_def)

lemma attach_neighbor_names [simp]: "neighbor_names (attach dat f h) x = neighbor_names h x"
  by (simp add: neighbor_names_def)

lemma check_factor_attach [simp]:
  "check_factor dat vd (attach dat g h) f = check_factor dat vd h f"
  by (simp add: check_factor_def split: option.splits)

lemma check_all_attach [simp]:
  "check_all dat vd (attach dat g h) fs = check_all dat vd h fs"
  by (induction fs arbitrary: vd) (simp_all split: sum.splits prod.splits)

lemma loop_step:
  "set_distributions_loop dat vd h (f # rest) =
     (case check_factor dat vd h f of
        Inl e \<Rightarrow> (Some e, vd, h)
      | Inr vd' \<Rightarrow> set_distributions_loop dat vd' (attach dat f h) rest)"
  by (simp add: check_factor_def attach_def split: option.splits sum.splits)

lemma loop_eq:
  "set_distributions_loop dat vd h fs =
     (case check_all dat vd h fs of
        (r, vd', k) \<Rightarrow> (r, vd', fold (attach dat) (take k fs) h))"
proof (induction fs arbitrary: vd h)
  case Nil
  then show ?case by simp
next
  case (Cons f fs)
  show ?case
    unfolding loop_step
    by (simp add: Cons.IH split: sum.splits prod.splits)
qed

lemma check_all_count:
  "check_all dat vd h fs = (r, vd', k) \<Longrightarrow> k \<le> length fs \<and> (r = None \<longleftrightarrow> k = length fs)"
  by (induction fs arbitrary: vd r vd' k) (auto split: sum.splits prod.splits)




lemma fold_attach_fields [simp]:
  "name (fold (attach dat) fs h x) = name (h x)"
  "neighbors (fold (attach dat) fs h x) = neighbors (h x)"
  "klass (fold (attach dat) fs h x) = klass (h x)"
  by (induction fs arbitrary: h; simp)+







lemma check_all_append:
  "check_all dat vd h (xs @ ys) =
     (case check_all dat vd h xs of
        (Some e, vd', j) \<Rightarrow> (Some e, vd', j)
      | (None, vd', j) \<Rightarrow>
          (case check_all dat vd' h ys of (r, vd'', j') \<Rightarrow> (r, vd'', j + j')))"
  by (induction xs arbitrary: vd) (auto split: sum.splits prod.splits option.splits)

lemma check_all_present:
  "check_all dat vd h xs = (Some e, vd', j) \<Longrightarrow> \<forall>f \<in> set xs. dat (name (h f)) \<noteq> None \<Longrightarrow>
     (\<exists>n m. e = ValueError_missing_axes n m) \<or> (\<exists>n a b. e = ValueError_wrong_size n a b)"
proof (induction xs arbitrary: vd j)
  case Nil
  then show ?case by simp
next
  case (Cons f fs)
  have cd: "check_dims n v zs = Inl e \<Longrightarrow> \<exists>a b. e = ValueError_wrong_size n a b" for n v zs
    by (induction n v zs rule: check_dims.induct) (auto split: option.splits if_splits)
  show ?case
  proof (cases "check_factor dat vd h f")
    case (Inl e')
    then have "e' = e" using Cons.prems(1) by simp
    then show ?thesis using Inl Cons.prems(2)
      by (auto simp: check_factor_def split: option.splits if_splits dest: cd)
  next
    case (Inr v1)
    then obtain j' where "check_all dat v1 h fs = (Some e, vd', j')"
      using Cons.prems(1) by (auto split: prod.splits)
    then show ?thesis using Cons.IH Cons.prems(2) by simp
  qed
qed

text \<open>
  C10, as the code has it. When factor \<open>k\<close> is the first factor without an entry in the
  mapping, the call always raises: the \<^verbatim>\<open>KeyError\<close> of that factor (before its axis
  and size checks) when the factors before it pass their checks, and otherwise the error of
  the run over those earlier factors, which is one of the two \<^verbatim>\<open>ValueError\<close>s.
\<close>

theorem set_distributions_missing_entry:
  assumes "k < length (factors pgm)"
    and "dat (name (h (factors pgm ! k))) = None"
    and "\<forall>j<k. dat (name (h (factors pgm ! j))) \<noteq> None"
  shows "fst (set_distributions pgm dat h) =
           (case fst (set_distributions (pgm\<lparr>factors := take k (factors pgm)\<rparr>) dat h) of
              None \<Rightarrow> Some (KeyError (name (h (factors pgm ! k))))
            | Some e \<Rightarrow> Some e) \<and>
         (\<forall>e. fst (set_distributions (pgm\<lparr>factors := take k (factors pgm)\<rparr>) dat h) = Some e \<longrightarrow>
              (\<exists>n m. e = ValueError_missing_axes n m) \<or> (\<exists>n a b. e = ValueError_wrong_size n a b))"
proof -
  let ?fs = "factors pgm"
  have split: "?fs = take k ?fs @ (?fs ! k) # drop (Suc k) ?fs"
    using assms(1) by (simp add: id_take_nth_drop)
  obtain r vd j where pre: "check_all dat Map.empty h (take k ?fs) = (r, vd, j)"
    by (cases "check_all dat Map.empty h (take k ?fs)")
  have fpre: "fst (set_distributions (pgm\<lparr>factors := take k ?fs\<rparr>) dat h) = r"
    using pre by (simp add: set_distributions_def loop_eq)
  have hd: "check_all dat vd h ((?fs ! k) # drop (Suc k) ?fs) =
              (Some (KeyError (name (h (?fs ! k)))), vd, 0)"
    using assms(2) by (simp add: check_factor_def)
  have "check_all dat Map.empty h ?fs =
          (case r of Some e \<Rightarrow> (Some e, vd, j)
           | None \<Rightarrow> (Some (KeyError (name (h (?fs ! k)))), vd, j))"
    by (subst split, subst check_all_append) (simp add: pre hd del: check_all.simps split: option.splits)
  then have full: "fst (set_distributions pgm dat h) =
      (case r of None \<Rightarrow> Some (KeyError (name (h (?fs ! k)))) | Some e \<Rightarrow> Some e)"
    by (simp add: set_distributions_def loop_eq split: option.splits)
  have present: "\<forall>f \<in> set (take k ?fs). dat (name (h f)) \<noteq> None"
    using assms(1,3) by (auto simp: in_set_conv_nth)
  have "(\<exists>n m. e = ValueError_missing_axes n m) \<or> (\<exists>n a b. e = ValueError_wrong_size n a b)"
    if "r = Some e" for e
    using check_all_present[OF _ present] pre that by blast
  then show ?thesis using full fpre by simp
qed

text \<open>
  The claim as stated (always the \<^verbatim>\<open>KeyError\<close>) fails when an earlier factor fails a
  check: here the first factor has a wrong axis name and the second has no entry.
\<close>

theorem set_distributions_missing_entry_counterexample:
  "data_bad_axes_and_missing ''p(h2|h1)'' = None \<and>
   fst (set_distributions chain_pgm data_bad_axes_and_missing chain_heap) =
     Some (ValueError_missing_axes ''p(h1)'' {''h1''})"
  by code_simp

theorem set_distributions_missing_entry_witness:
  "3 < length (factors chain_pgm) \<and>
   data_without_last (name (chain_heap (factors chain_pgm ! 3))) = None \<and>
   list_all (\<lambda>j. data_without_last (name (chain_heap (factors chain_pgm ! j))) \<noteq> None) [0, 1, 2] \<and>
   fst (set_distributions (chain_pgm\<lparr>factors := take 3 (factors chain_pgm)\<rparr>)
          data_without_last chain_heap) = None \<and>
   fst (set_distributions chain_pgm data_without_last chain_heap) = Some (KeyError ''p(v2|h2)'')"
proof -
  have a: "3 < length (factors chain_pgm)" by code_simp
  have b: "data_without_last (name (chain_heap (factors chain_pgm ! 3))) = None" by code_simp
  have c: "list_all (\<lambda>j. data_without_last (name (chain_heap (factors chain_pgm ! j))) \<noteq> None) [0, 1, 2]"
    by code_simp
  have c': "\<forall>j<3. data_without_last (name (chain_heap (factors chain_pgm ! j))) \<noteq> None"
  proof (intro allI impI)
    fix j :: nat assume "j < 3"
    then have "j \<in> set [0, 1, 2]" by auto
    then show "data_without_last (name (chain_heap (factors chain_pgm ! j))) \<noteq> None"
      using c unfolding list_all_iff by blast
  qed
  have d: "fst (set_distributions (chain_pgm\<lparr>factors := take 3 (factors chain_pgm)\<rparr>)
          data_without_last chain_heap) = None" by code_simp
  have n: "name (chain_heap (factors chain_pgm ! 3)) = ''p(v2|h2)''" by code_simp
  show ?thesis
    using set_distributions_missing_entry[OF a b c'] a b c d n by simp
qed

lemma check_dims_ok:
  "check_dims n vd zs = Inr vd' \<Longrightarrow> vd \<subseteq>\<^sub>m vd' \<and> (\<forall>(v, d) \<in> set zs. vd' v = Some d)"
proof (induction n vd zs rule: check_dims.induct)
  case (1 fname var_dims)
  then show ?case by simp
next
  case (2 fname var_dims v dimn rest)
  show ?case
  proof (cases "var_dims v")
    case None
    then have c: "check_dims fname (var_dims(v \<mapsto> dimn)) rest = Inr vd'" using "2.prems" by simp
    note ih = "2.IH"(1)[OF None c]
    have i: "var_dims(v \<mapsto> dimn) \<subseteq>\<^sub>m vd'" "\<forall>(v, d) \<in> set rest. vd' v = Some d"
      using ih by (rule conjunct1, rule conjunct2)
    have "vd' v = Some dimn" using i(1) by (auto simp: map_le_def dom_def split: if_splits)
    moreover have "var_dims \<subseteq>\<^sub>m vd'"
      using i(1) None by (auto simp: map_le_def dom_def split: if_splits)
    ultimately show ?thesis using i(2) by auto
  next
    case (Some d)
    then have dd: "d = dimn" and c: "check_dims fname var_dims rest = Inr vd'"
      using "2.prems" by (auto split: if_splits)
    have nd: "\<not> d \<noteq> dimn" using dd by simp
    note ih = "2.IH"(2)[OF Some nd c]
    have i: "var_dims \<subseteq>\<^sub>m vd'" "\<forall>(v, d) \<in> set rest. vd' v = Some d"
      using ih by (rule conjunct1, rule conjunct2)
    have "vd' v = Some dimn" using i(1) Some dd by (auto simp: map_le_def dom_def)
    then show ?thesis using i by auto
  qed
qed

lemma check_factor_ok:
  "check_factor dat vd h f = Inr vd' \<Longrightarrow>
     vd \<subseteq>\<^sub>m vd' \<and> (\<forall>(v, d) \<in> factor_dims dat h f. vd' v = Some d)"
  by (auto simp: check_factor_def factor_dims_def split: option.splits if_splits dest!: check_dims_ok)

lemma check_all_ok:
  "check_all dat vd h fs = (None, vd', k) \<Longrightarrow>
     vd \<subseteq>\<^sub>m vd' \<and> (\<forall>f \<in> set fs. \<forall>(v, d) \<in> factor_dims dat h f. vd' v = Some d)"
proof (induction fs arbitrary: vd k)
  case Nil
  then show ?case by simp
next
  case (Cons f fs)
  from Cons.prems obtain v1 k' where
    cf: "check_factor dat vd h f = Inr v1" and ca: "check_all dat v1 h fs = (None, vd', k')"
    by (auto split: sum.splits prod.splits)
  from check_factor_ok[OF cf] have 1: "vd \<subseteq>\<^sub>m v1" "\<forall>(v, d) \<in> factor_dims dat h f. v1 v = Some d"
    by auto
  from Cons.IH[OF ca] have 2: "v1 \<subseteq>\<^sub>m vd'" "\<forall>f \<in> set fs. \<forall>(v, d) \<in> factor_dims dat h f. vd' v = Some d"
    by auto
  have "vd \<subseteq>\<^sub>m vd'" using 1(1) 2(1) by (rule map_le_trans)
  moreover have "\<forall>(v, d) \<in> factor_dims dat h f. vd' v = Some d"
    using 1(2) 2(1) by (auto simp: map_le_def dom_def)
  ultimately show ?case using 2(2) by simp
qed

lemma check_dims_err:
  "check_dims n vd zs = Inl e \<Longrightarrow> (\<forall>v d. vd v = Some d \<longrightarrow> (v, d) \<in> S) \<Longrightarrow>
     \<exists>w dm ex. e = ValueError_wrong_size n dm ex \<and> (w, dm) \<in> set zs \<and> dm \<noteq> ex \<and>
                ((w, ex) \<in> S \<or> (w, ex) \<in> set zs)"
proof (induction n vd zs arbitrary: S rule: check_dims.induct)
  case (1 fname var_dims)
  then show ?case by simp
next
  case (2 fname var_dims v dimn rest)
  show ?case
  proof (cases "var_dims v")
    case None
    then have c: "check_dims fname (var_dims(v \<mapsto> dimn)) rest = Inl e" using "2.prems"(1) by simp
    have s: "\<forall>w d. (var_dims(v \<mapsto> dimn)) w = Some d \<longrightarrow> (w, d) \<in> insert (v, dimn) S"
      using "2.prems"(2) by auto
    from "2.IH"(1)[OF None c s] obtain w dm ex where
      "e = ValueError_wrong_size fname dm ex" "(w, dm) \<in> set rest" "dm \<noteq> ex"
      "(w, ex) \<in> insert (v, dimn) S \<or> (w, ex) \<in> set rest" by blast
    then show ?thesis by auto
  next
    case (Some d)
    show ?thesis
    proof (cases "d \<noteq> dimn")
      case True
      then have "e = ValueError_wrong_size fname dimn d" using "2.prems"(1) Some by simp
      moreover have "(v, d) \<in> S" using "2.prems"(2) Some by simp
      ultimately show ?thesis using True by auto
    next
      case False
      then have c: "check_dims fname var_dims rest = Inl e" using "2.prems"(1) Some by simp
      from "2.IH"(2)[OF Some False c "2.prems"(2)] obtain w dm ex where
        "e = ValueError_wrong_size fname dm ex" "(w, dm) \<in> set rest" "dm \<noteq> ex"
        "(w, ex) \<in> S \<or> (w, ex) \<in> set rest" by blast
      then show ?thesis by auto
    qed
  qed
qed

lemma check_dims_ok_from:
  "check_dims n vd zs = Inr vd' \<Longrightarrow> (\<forall>v d. vd v = Some d \<longrightarrow> (v, d) \<in> S) \<Longrightarrow>
     (\<forall>v d. vd' v = Some d \<longrightarrow> (v, d) \<in> S \<or> (v, d) \<in> set zs)"
proof (induction n vd zs arbitrary: S rule: check_dims.induct)
  case (1 fname var_dims)
  then show ?case by simp
next
  case (2 fname var_dims v dimn rest)
  show ?case
  proof (cases "var_dims v")
    case None
    then have c: "check_dims fname (var_dims(v \<mapsto> dimn)) rest = Inr vd'" using "2.prems"(1) by simp
    have s: "\<forall>w d. (var_dims(v \<mapsto> dimn)) w = Some d \<longrightarrow> (w, d) \<in> insert (v, dimn) S"
      using "2.prems"(2) by auto
    from "2.IH"(1)[OF None c s] show ?thesis by auto
  next
    case (Some d)
    then have nd: "\<not> d \<noteq> dimn" and c: "check_dims fname var_dims rest = Inr vd'"
      using "2.prems"(1) by (auto split: if_splits)
    from "2.IH"(2)[OF Some nd c "2.prems"(2)] show ?thesis by auto
  qed
qed

lemma check_all_prefix:
  "check_all dat vd h fs = (r, vd', k) \<Longrightarrow> n \<le> k \<Longrightarrow>
     \<exists>vdn. check_all dat vd h (take n fs) = (None, vdn, n)"
proof (induction fs arbitrary: vd k n)
  case Nil
  then show ?case by simp
next
  case (Cons f fs)
  show ?case
  proof (cases n)
    case 0
    then show ?thesis by simp
  next
    case (Suc n')
    then have kpos: "0 < k" using Cons.prems(2) by simp
    obtain v1 where cf: "check_factor dat vd h f = Inr v1"
      using Cons.prems(1) kpos by (cases "check_factor dat vd h f") auto
    then obtain k' where ca: "check_all dat v1 h fs = (r, vd', k')" and k: "k = Suc k'"
      using Cons.prems(1) by (auto split: prod.splits)
    have "n' \<le> k'" using Cons.prems(2) Suc k by simp
    from Cons.IH[OF ca this] obtain vdn where "check_all dat v1 h (take n' fs) = (None, vdn, n')"
      by blast
    then show ?thesis by (simp add: Suc cf)
  qed
qed

lemma check_all_stop:
  "check_all dat vd h fs = (Some e, vd', k) \<Longrightarrow>
     k < length fs \<and>
     (\<exists>vdk. check_all dat vd h (take k fs) = (None, vdk, k) \<and>
            check_factor dat vdk h (fs ! k) = Inl e)"
proof (induction fs arbitrary: vd k)
  case Nil
  then show ?case by simp
next
  case (Cons f fs)
  show ?case
  proof (cases "check_factor dat vd h f")
    case (Inl e')
    then have "e' = e" "k = 0" using Cons.prems by simp_all
    then show ?thesis using Inl by simp
  next
    case (Inr v1)
    then obtain k' where ca: "check_all dat v1 h fs = (Some e, vd', k')" and k: "k = Suc k'"
      using Cons.prems by (auto split: prod.splits)
    from Cons.IH[OF ca] obtain vdk where
      "k' < length fs" "check_all dat v1 h (take k' fs) = (None, vdk, k')"
      "check_factor dat vdk h (fs ! k') = Inl e" by blast
    then show ?thesis by (simp add: k Inr)
  qed
qed

lemma check_all_recorded:
  "check_all dat vd h fs = (None, vd', k) \<Longrightarrow> (\<forall>v d. vd v = Some d \<longrightarrow> (v, d) \<in> S) \<Longrightarrow>
     (\<forall>v d. vd' v = Some d \<longrightarrow>
        (v, d) \<in> S \<or> (\<exists>l < length fs. (v, d) \<in> factor_dims dat h (fs ! l)))"
proof (induction fs arbitrary: vd k S)
  case Nil
  then show ?case by simp
next
  case (Cons f fs)
  from Cons.prems(1) obtain v1 k' where
    cf: "check_factor dat vd h f = Inr v1" and ca: "check_all dat v1 h fs = (None, vd', k')"
    by (auto split: sum.splits prod.splits)
  from cf obtain T where T: "dat (name (h f)) = Some T"
    and cd: "check_dims (name (h f)) vd (zip (axes_labels T) (shape (probs T))) = Inr v1"
    by (auto simp: check_factor_def split: option.splits if_splits)
  have fd: "factor_dims dat h f = set (zip (axes_labels T) (shape (probs T)))"
    using T by (simp add: factor_dims_def)
  have s: "\<forall>v d. v1 v = Some d \<longrightarrow> (v, d) \<in> S \<union> factor_dims dat h f"
    using check_dims_ok_from[OF cd Cons.prems(2)] unfolding fd by auto
  show ?case
  proof (intro allI impI)
    fix v d assume "vd' v = Some d"
    with Cons.IH[OF ca s] consider "(v, d) \<in> S" | "(v, d) \<in> factor_dims dat h f"
      | l where "l < length fs" "(v, d) \<in> factor_dims dat h (fs ! l)" by blast
    then show "(v, d) \<in> S \<or> (\<exists>l < length (f # fs). (v, d) \<in> factor_dims dat h ((f # fs) ! l))"
    proof cases
      case 1
      then show ?thesis by simp
    next
      case 2
      then have "(v, d) \<in> factor_dims dat h ((f # fs) ! 0)" by simp
      then show ?thesis by blast
    next
      case 3
      then have "Suc l < length (f # fs)" "(v, d) \<in> factor_dims dat h ((f # fs) ! Suc l)" by simp_all
      then show ?thesis by blast
    qed
  qed
qed

text \<open>
  C6, as the code has it. When the tensors assigned to two factors give a variable
  different sizes, the call raises, always with the same error: the loop stops at the
  first factor \<open>k\<close>, in factor order, that fails one of its checks, and \<open>k\<close> is not later
  than the later of the two factors. The error is that of factor \<open>k\<close>: \<^verbatim>\<open>KeyError\<close> when
  it has no entry; the missing-axes \<^verbatim>\<open>ValueError\<close> when the axis names of its tensor are
  not the names of its neighbors; otherwise the wrong-size \<^verbatim>\<open>ValueError\<close>, which names
  factor \<open>k\<close>, a size \<open>dm\<close> that its tensor gives to a variable and the different size
  \<open>ex\<close> that the tensor of factor \<open>k\<close> or of an earlier factor gives to the same variable.
\<close>

theorem set_distributions_dimension_mismatch:
  assumes "i < length (factors pgm)" and "j < length (factors pgm)"
    and "(v, d1) \<in> factor_dims dat h (factors pgm ! i)"
    and "(v, d2) \<in> factor_dims dat h (factors pgm ! j)" and "d1 \<noteq> d2"
  shows "\<exists>k e. k \<le> max i j \<and> fst (set_distributions pgm dat h) = Some e \<and>
           (case dat (name (h (factors pgm ! k))) of
              None \<Rightarrow> e = KeyError (name (h (factors pgm ! k)))
            | Some T \<Rightarrow>
                if set (axes_labels T) \<noteq> neighbor_names h (factors pgm ! k)
                then e = ValueError_missing_axes (name (h (factors pgm ! k)))
                           (neighbor_names h (factors pgm ! k) - set (axes_labels T))
                else \<exists>w dm ex.
                       e = ValueError_wrong_size (name (h (factors pgm ! k))) dm ex \<and>
                       (w, dm) \<in> factor_dims dat h (factors pgm ! k) \<and> dm \<noteq> ex \<and>
                       (\<exists>l \<le> k. (w, ex) \<in> factor_dims dat h (factors pgm ! l)))"
proof -
  let ?fs = "factors pgm"
  obtain r vd k where ca: "check_all dat Map.empty h ?fs = (r, vd, k)"
    by (cases "check_all dat Map.empty h ?fs")
  have fr: "fst (set_distributions pgm dat h) = r"
    using ca by (simp add: set_distributions_def loop_eq)
  have kmax: "k \<le> max i j"
  proof (rule ccontr)
    assume "\<not> k \<le> max i j"
    then have n: "Suc (max i j) \<le> k" by simp
    from check_all_prefix[OF ca n] obtain vdn where
      pre: "check_all dat Map.empty h (take (Suc (max i j)) ?fs) = (None, vdn, Suc (max i j))"
      by blast
    have mem: "?fs ! m \<in> set (take (Suc (max i j)) ?fs)" if "m \<le> max i j" "m < length ?fs" for m
    proof -
      have "take (Suc (max i j)) ?fs ! m = ?fs ! m" using that by simp
      moreover have "m < length (take (Suc (max i j)) ?fs)" using that by simp
      ultimately show ?thesis by (metis nth_mem)
    qed
    have "?fs ! i \<in> set (take (Suc (max i j)) ?fs)" "?fs ! j \<in> set (take (Suc (max i j)) ?fs)"
      using mem[of i] mem[of j] assms(1,2) by simp_all
    with check_all_ok[OF pre] assms(3,4) have "vdn v = Some d1" "vdn v = Some d2" by auto
    then show False using assms(5) by simp
  qed
  have "k < length ?fs" using kmax assms(1,2) by (simp add: max_def split: if_splits)
  then have "r \<noteq> None" using check_all_count[OF ca] by auto
  then obtain e where e: "r = Some e" by auto
  from check_all_stop[OF ca[unfolded e]] obtain vdk where
    kl: "k < length ?fs" and pre: "check_all dat Map.empty h (take k ?fs) = (None, vdk, k)"
    and cf: "check_factor dat vdk h (?fs ! k) = Inl e" by blast
  have rec: "\<forall>w d. vdk w = Some d \<longrightarrow> (\<exists>l < k. (w, d) \<in> factor_dims dat h (?fs ! l))"
  proof (intro allI impI)
    fix w d assume "vdk w = Some d"
    moreover have "\<forall>v d. Map.empty v = Some d \<longrightarrow> (v, d) \<in> ({} :: (string \<times> nat) set)" by simp
    ultimately obtain l where "l < length (take k ?fs)" "(w, d) \<in> factor_dims dat h (take k ?fs ! l)"
      using check_all_recorded[OF pre] by blast
    then show "\<exists>l < k. (w, d) \<in> factor_dims dat h (?fs ! l)" by auto
  qed
  have "case dat (name (h (?fs ! k))) of
              None \<Rightarrow> e = KeyError (name (h (?fs ! k)))
            | Some T \<Rightarrow>
                if set (axes_labels T) \<noteq> neighbor_names h (?fs ! k)
                then e = ValueError_missing_axes (name (h (?fs ! k)))
                           (neighbor_names h (?fs ! k) - set (axes_labels T))
                else \<exists>w dm ex.
                       e = ValueError_wrong_size (name (h (?fs ! k))) dm ex \<and>
                       (w, dm) \<in> factor_dims dat h (?fs ! k) \<and> dm \<noteq> ex \<and>
                       (\<exists>l \<le> k. (w, ex) \<in> factor_dims dat h (?fs ! l))"
  proof (cases "dat (name (h (?fs ! k)))")
    case None
    then show ?thesis using cf by (simp add: check_factor_def)
  next
    case (Some T)
    show ?thesis
    proof (cases "set (axes_labels T) \<noteq> neighbor_names h (?fs ! k)")
      case True
      then show ?thesis using cf Some by (simp add: check_factor_def)
    next
      case False
      then have cd: "check_dims (name (h (?fs ! k))) vdk (zip (axes_labels T) (shape (probs T))) = Inl e"
        using cf Some by (simp add: check_factor_def)
      have fd: "factor_dims dat h (?fs ! k) = set (zip (axes_labels T) (shape (probs T)))"
        using Some by (simp add: factor_dims_def)
      have s: "\<forall>w d. vdk w = Some d \<longrightarrow> (w, d) \<in> {(w, d). vdk w = Some d}" by simp
      from check_dims_err[OF cd s] obtain w dm ex where
        w: "e = ValueError_wrong_size (name (h (?fs ! k))) dm ex"
           "(w, dm) \<in> factor_dims dat h (?fs ! k)" "dm \<noteq> ex"
           "vdk w = Some ex \<or> (w, ex) \<in> factor_dims dat h (?fs ! k)"
        unfolding fd by auto
      have "\<exists>l \<le> k. (w, ex) \<in> factor_dims dat h (?fs ! l)"
      proof (cases "vdk w = Some ex")
        case True
        with rec obtain l where "l < k" "(w, ex) \<in> factor_dims dat h (?fs ! l)" by blast
        then show ?thesis using less_imp_le by blast
      next
        case False
        then show ?thesis using w(4) by blast
      qed
      then show ?thesis using w(1,2,3) Some False by auto
    qed
  qed
  then show ?thesis using kmax fr e by blast
qed

text \<open>
  The claim as stated (always the wrong-size error) fails when the axis check of the
  offending factor fails first: here the second factor lacks the axis \<open>h2\<close> and gives
  \<open>h1\<close> three states.
\<close>

theorem set_distributions_dimension_mismatch_counterexample:
  "(''h1'', 2) \<in> factor_dims data_bad_axes_and_size chain_heap 4 \<and>
   (''h1'', 3) \<in> factor_dims data_bad_axes_and_size chain_heap 5 \<and>
   fst (set_distributions chain_pgm data_bad_axes_and_size chain_heap) =
     Some (ValueError_missing_axes ''p(h2|h1)'' {''h2''})"
  by code_simp

theorem set_distributions_dimension_mismatch_witness:
  "0 < length (factors chain_pgm) \<and> 2 < length (factors chain_pgm) \<and>
   (''h1'', 2) \<in> factor_dims data_bad_size_and_missing chain_heap (factors chain_pgm ! 0) \<and>
   (''h1'', 3) \<in> factor_dims data_bad_size_and_missing chain_heap (factors chain_pgm ! 2) \<and>
   data_bad_size_and_missing ''p(v2|h2)'' = None \<and>
   fst (set_distributions chain_pgm data_bad_size_and_missing chain_heap) =
     Some (ValueError_wrong_size ''p(v1|h1)'' 3 2) \<and>
   (\<exists>k e. k \<le> max 0 2 \<and>
      fst (set_distributions chain_pgm data_bad_size_and_missing chain_heap) = Some e \<and>
      (case data_bad_size_and_missing (name (chain_heap (factors chain_pgm ! k))) of
         None \<Rightarrow> e = KeyError (name (chain_heap (factors chain_pgm ! k)))
       | Some T \<Rightarrow>
           if set (axes_labels T) \<noteq> neighbor_names chain_heap (factors chain_pgm ! k)
           then e = ValueError_missing_axes (name (chain_heap (factors chain_pgm ! k)))
                      (neighbor_names chain_heap (factors chain_pgm ! k) - set (axes_labels T))
           else \<exists>w dm ex.
                  e = ValueError_wrong_size (name (chain_heap (factors chain_pgm ! k))) dm ex \<and>
                  (w, dm) \<in> factor_dims data_bad_size_and_missing chain_heap (factors chain_pgm ! k) \<and>
                  dm \<noteq> ex \<and>
                  (\<exists>l \<le> k. (w, ex) \<in>
                     factor_dims data_bad_size_and_missing chain_heap (factors chain_pgm ! l))))"
proof -
  have a: "0 < length (factors chain_pgm)" "2 < length (factors chain_pgm)" by code_simp+
  have b: "(''h1'', 2) \<in> factor_dims data_bad_size_and_missing chain_heap (factors chain_pgm ! 0)"
          "(''h1'', 3) \<in> factor_dims data_bad_size_and_missing chain_heap (factors chain_pgm ! 2)"
    by code_simp+
  have c: "data_bad_size_and_missing ''p(v2|h2)'' = None" by code_simp
  have d: "fst (set_distributions chain_pgm data_bad_size_and_missing chain_heap) =
     Some (ValueError_wrong_size ''p(v1|h1)'' 3 2)" by code_simp
  have ne: "(2::nat) \<noteq> 3" by simp
  note t = set_distributions_dimension_mismatch[OF a b ne]
  show ?thesis using a b c d t by blast
qed

section \<open>The axes of a distribution\<close>

lemma fold_upd_dom:
  "dom (fold (\<lambda>(axis, nm) m. m(nm \<mapsto> axis)) ps m0) = dom m0 \<union> snd ` set ps"
  by (induction ps arbitrary: m0) (auto split: prod.splits)

lemma fold_upd_Some:
  "fold (\<lambda>(axis, nm) m. m(nm \<mapsto> axis)) ps m0 n = Some a \<Longrightarrow> (a, n) \<in> set ps \<or> m0 n = Some a"
proof (induction ps arbitrary: m0)
  case Nil
  then show ?case by simp
next
  case (Cons p ps)
  obtain ax nm where p: "p = (ax, nm)" by (cases p)
  have "fold (\<lambda>(axis, nm) m. m(nm \<mapsto> axis)) (p # ps) m0 =
          fold (\<lambda>(axis, nm) m. m(nm \<mapsto> axis)) ps (m0(nm \<mapsto> ax))"
    by (simp add: p)
  with Cons.prems have "fold (\<lambda>(axis, nm) m. m(nm \<mapsto> axis)) ps (m0(nm \<mapsto> ax)) n = Some a"
    by metis
  from Cons.IH[OF this] show ?case by (auto simp: p split: if_splits)
qed

lemma dom_get_axes: "dom (get_axes d) = set (axes_labels d)"
proof -
  have m: "map snd (enumerate 0 (axes_labels d)) = axes_labels d"
    by (simp add: enumerate_eq_zip)
  have "snd ` set (enumerate 0 (axes_labels d)) = set (map snd (enumerate 0 (axes_labels d)))"
    by (simp only: set_map)
  also have "\<dots> = set (axes_labels d)" by (simp only: m)
  finally have "snd ` set (enumerate 0 (axes_labels d)) = set (axes_labels d)" .
  then show ?thesis by (simp add: get_axes_def fold_upd_dom)
qed

lemma get_axes_Some:
  "get_axes d n = Some a \<Longrightarrow> a < length (axes_labels d) \<and> axes_labels d ! a = n"
  unfolding get_axes_def by (drule fold_upd_Some) (auto simp: in_set_enumerate_eq)

text \<open>
  C7. When the single axis name of \<open>U\<close> is not among the axis labels of \<open>T\<close>,
  \<^verbatim>\<open>multiply(T, U)\<close> raises \<^verbatim>\<open>KeyError\<close> for that name and returns no tensor.
\<close>

theorem multiply_unknown_axis:
  "axes_labels U = [n] \<Longrightarrow> n \<notin> set (axes_labels T) \<Longrightarrow> multiply T U = Inl (KeyError n)"
proof -
  assume u: "axes_labels U = [n]" and n: "n \<notin> set (axes_labels T)"
  have "get_axes T n = None" using n dom_get_axes[of T] by (auto simp: dom_def)
  then show ?thesis by (simp add: multiply_def u)
qed

theorem multiply_unknown_axis_witness:
  "axes_labels nb_p_h2 = [''h2''] \<and> ''h2'' \<notin> set (axes_labels nb_p_v1_given_h1) \<and>
   multiply nb_p_v1_given_h1 nb_p_h2 = Inl (KeyError ''h2'')"
proof -
  have a: "axes_labels nb_p_h2 = [''h2'']" by code_simp
  have b: "''h2'' \<notin> set (axes_labels nb_p_v1_given_h1)" by code_simp
  show ?thesis using multiply_unknown_axis[OF a b] a b by simp
qed

section \<open>Multi-indices and offsets\<close>

lemma length_indices: "length (indices s) = prod_list s"
proof (induction s)
  case Nil
  then show ?case by simp
next
  case (Cons d ds)
  have "length (concat (map (\<lambda>i. map ((#) i) (indices ds)) [0..<d])) = d * prod_list ds"
    by (simp add: length_concat comp_def Cons.IH sum_list_triv)
  then show ?case by simp
qed

lemma in_indices:
  "idx \<in> set (indices s) \<longleftrightarrow> length idx = length s \<and> (\<forall>i < length s. idx ! i < s ! i)"
proof (induction s arbitrary: idx)
  case Nil
  then show ?case by simp
next
  case (Cons d ds)
  show ?case
  proof (cases idx)
    case Nil
    then show ?thesis by auto
  next
    case (Cons i js)
    have "idx \<in> set (indices (d # ds)) \<longleftrightarrow> i < d \<and> js \<in> set (indices ds)"
      by (auto simp: Cons)
    also have "\<dots> \<longleftrightarrow> i < d \<and> length js = length ds \<and> (\<forall>j < length ds. js ! j < ds ! j)"
      by (simp add: Cons.IH)
    also have "\<dots> \<longleftrightarrow> length idx = length (d # ds) \<and> (\<forall>j < length (d # ds). idx ! j < (d # ds) ! j)"
      by (auto simp: Cons nth_Cons split: nat.splits)
    finally show ?thesis .
  qed
qed

lemma ravel_Cons:
  "foldl (\<lambda>acc (d, i). acc * d + i) (acc :: nat) (zip s idx) =
     acc * prod_list (take (length idx) s) + foldl (\<lambda>acc (d, i). acc * d + i) 0 (zip s idx)"
  if "length idx = length s"
  using that
proof (induction s arbitrary: idx acc)
  case Nil
  then show ?case by simp
next
  case (Cons d ds)
  then obtain i js where idx: "idx = i # js" "length js = length ds" by (cases idx) auto
  show ?case
    by (simp add: idx, subst Cons.IH[OF idx(2)], subst (2) Cons.IH[OF idx(2)])
       (simp add: idx algebra_simps)
qed

lemma ravel_simps:
  "ravel [] [] = 0"
  "length js = length ds \<Longrightarrow> ravel (d # ds) (i # js) = i * prod_list ds + ravel ds js"
  unfolding ravel_def
  by (simp, simp, subst ravel_Cons) simp_all

lemma upt_blocks: "concat (map (\<lambda>i. map (\<lambda>j. i * p + j) [0..<p]) [0..<d]) = [0..<d * p]"
proof (induction d)
  case 0
  then show ?case by simp
next
  case (Suc d)
  have "map (\<lambda>j. c + j) [0..<q] = [c..<c + q]" for c q :: nat
    by (induction q) simp_all
  then have 1: "map (\<lambda>j. d * p + j) [0..<p] = [d * p..<d * p + p]" .
  have 2: "[0..<d * p + p] = [0..<d * p] @ [d * p..<d * p + p]"
    by (rule upt_add_eq_append) simp
  have "concat (map (\<lambda>i. map (\<lambda>j. i * p + j) [0..<p]) [0..<Suc d]) =
          concat (map (\<lambda>i. map (\<lambda>j. i * p + j) [0..<p]) [0..<d]) @ map (\<lambda>j. d * p + j) [0..<p]"
    by simp
  also have "\<dots> = [0..<d * p + p]" unfolding Suc 1 2 ..
  finally show ?case by (simp add: add.commute)
qed

lemma ravel_indices: "map (ravel s) (indices s) = [0..<prod_list s]"
proof (induction s)
  case Nil
  then show ?case by (simp add: ravel_simps)
next
  case (Cons d ds)
  have "map (ravel (d # ds)) (map ((#) i) (indices ds)) = map (\<lambda>j. i * prod_list ds + j) [0..<prod_list ds]" for i
  proof -
    have "map (ravel (d # ds)) (map ((#) i) (indices ds)) =
            map (\<lambda>js. i * prod_list ds + ravel ds js) (indices ds)"
      by (auto simp: in_indices ravel_simps)
    also have "\<dots> = map (\<lambda>j. i * prod_list ds + j) (map (ravel ds) (indices ds))"
      by (simp add: comp_def)
    finally show ?thesis by (simp add: Cons.IH)
  qed
  then have "map (ravel (d # ds)) (indices (d # ds)) =
               concat (map (\<lambda>i. map (\<lambda>j. i * prod_list ds + j) [0..<prod_list ds]) [0..<d])"
    by (simp add: map_concat comp_def)
  then show ?case by (simp add: upt_blocks)
qed

lemma map_item_indices: "valid_array a \<Longrightarrow> map (item a) (indices (shape a)) = flat a"
proof -
  assume v: "valid_array a"
  have "map (item a) (indices (shape a)) = map ((!) (flat a)) (map (ravel (shape a)) (indices (shape a)))"
    by (simp add: item_def comp_def)
  also have "\<dots> = map ((!) (flat a)) [0..<length (flat a)]"
    using v by (simp add: ravel_indices valid_array_def)
  finally show ?thesis by (simp add: map_nth)
qed

section \<open>Reshaping and broadcasting along one axis\<close>

lemma broadcast_dims_length:
  "broadcast_dims xs ys = Some zs \<Longrightarrow> length zs = length xs \<and> length ys = length xs"
  by (induction xs ys arbitrary: zs rule: broadcast_dims.induct)
     (auto split: option.splits if_splits)

lemma broadcast_shapes_length:
  "broadcast_shapes s t = Some z \<Longrightarrow> length z = max (length s) (length t)"
  unfolding broadcast_shapes_def by (drule broadcast_dims_length) auto

lemma np_reshape_ndim: "np_reshape a ns = Inr b \<Longrightarrow> ndim b = length ns"
  by (auto simp: np_reshape_def ndim_def Let_def split: if_splits)

lemma np_mul_ndim: "np_mul a b = Inr c \<Longrightarrow> ndim c = max (ndim a) (ndim b)"
  by (auto simp: np_mul_def ndim_def split: option.splits dest: broadcast_shapes_length)

lemma multiply_labels_rank:
  assumes "multiply T U = Inr R"
  shows "axes_labels R = axes_labels T \<and> ndim (probs R) = ndim (probs T)"
proof -
  from assms obtain hi rest axis reshaped r where
    u: "axes_labels U = hi # rest" and ax: "get_axes T hi = Some axis"
    and rs: "(if shape (probs U) \<noteq> []
              then np_reshape (probs U) (map (\<lambda>i. if i = axis then -1 else 1) [0..<ndim (probs T)])
              else Inr (probs U)) = Inr reshaped"
    and m: "np_mul (probs T) reshaped = Inr r"
    and R: "R = \<lparr>probs = r, axes_labels = axes_labels T\<rparr>"
    by (auto simp: multiply_def split: list.splits option.splits sum.splits)
  have "ndim reshaped = ndim (probs T) \<or> ndim reshaped = 0"
  proof (cases "shape (probs U) = []")
    case True
    then show ?thesis using rs by (auto simp: ndim_def)
  next
    case False
    then show ?thesis using rs np_reshape_ndim by fastforce
  qed
  then have "ndim r = ndim (probs T)" using np_mul_ndim[OF m] by auto
  then show ?thesis by (simp add: R)
qed

lemma broadcast_dims_ones: "broadcast_dims s (replicate (length s) 1) = Some s"
  by (induction s) auto

lemma broadcast_dims_unit:
  "axis < length s \<Longrightarrow>
   broadcast_dims s ((replicate (length s) 1)[axis := m]) =
     (if s ! axis = m \<or> s ! axis = 1 \<or> m = 1
      then Some (s[axis := (if s ! axis = 1 then m else s ! axis)]) else None)"
proof (induction s arbitrary: axis)
  case Nil
  then show ?case by simp
next
  case (Cons x xs)
  show ?case
  proof (cases axis)
    case 0
    then show ?thesis using broadcast_dims_ones[of xs] by simp
  next
    case (Suc a)
    then have "a < length xs" using Cons.prems by simp
    from Cons.IH[OF this] show ?thesis by (simp add: Suc)
  qed
qed

lemma filter_eq_upt: "filter (\<lambda>i. i = axis) [0..<k] = (if axis < k then [axis] else [])"
  by (induction k) auto

lemma prod_list_ones: "(\<forall>x \<in> set xs. x = (1::nat)) \<Longrightarrow> prod_list xs = 1"
  by (induction xs) auto

lemma np_reshape_unit:
  assumes "axis < k"
  shows "np_reshape a (map (\<lambda>i. if i = axis then -1 else 1) [0..<k]) =
           Inr \<lparr>shape = (replicate k 1)[axis := np_size a], flat = flat a\<rparr>"
proof -
  let ?ns = "map (\<lambda>i. if i = axis then -1 else (1::int)) [0..<k]"
  have neg: "\<not> (\<exists>d \<in> set ?ns. d < -1)" by auto
  have "filter (\<lambda>d. d = -1) ?ns = map (\<lambda>i. if i = axis then -1 else 1) (filter (\<lambda>i. i = axis) [0..<k])"
    by (simp add: filter_map comp_def)
  then have one: "length (filter (\<lambda>d. d = -1) ?ns) = 1"
    using assms by (simp add: filter_eq_upt)
  have known: "prod_list (map nat (filter (\<lambda>d. d \<noteq> -1) ?ns)) = 1"
    by (rule prod_list_ones) auto
  have mem: "-1 \<in> set ?ns" using assms by auto
  have sh: "map (\<lambda>d. if d = -1 then np_size a div 1 else nat d) ?ns = (replicate k 1)[axis := np_size a]"
    using assms by (intro nth_equalityI) (auto simp: nth_list_update)
  show ?thesis
    unfolding np_reshape_def Let_def known
    using neg one mem sh by (simp del: map_map upt.simps)
qed

lemma project_same:
  assumes "idx \<in> set (indices s)"
  shows "project s idx = idx"
proof -
  from assms have l: "length idx = length s" and b: "\<forall>i < length s. idx ! i < s ! i"
    by (simp_all add: in_indices)
  show ?thesis
    unfolding project_def using l b by (intro nth_equalityI) auto
qed

lemma ravel_zeros:
  "length js = n \<Longrightarrow>
   ravel (replicate n 1) (map (\<lambda>(d, i). if d = 1 then 0 else i) (zip (replicate n 1) js)) = 0"
proof (induction n arbitrary: js)
  case 0
  then show ?case by (simp add: ravel_simps)
next
  case (Suc n)
  then obtain i ks where js: "js = i # ks" "length ks = n" by (cases js) auto
  show ?case using Suc.IH[OF js(2)] by (simp add: js ravel_simps)
qed

lemma ravel_unit:
  "length idx = k \<Longrightarrow> axis < k \<Longrightarrow>
   ravel ((replicate k 1)[axis := m])
     (map (\<lambda>(d, i). if d = 1 then 0 else i) (zip ((replicate k 1)[axis := m]) idx)) =
   (if m = 1 then 0 else idx ! axis)"
proof (induction k arbitrary: idx axis)
  case 0
  then show ?case by simp
next
  case (Suc k)
  then obtain i ks where idx: "idx = i # ks" "length ks = k" by (cases idx) auto
  show ?case
  proof (cases axis)
    case 0
    have z: "ravel (replicate k 1) (map (\<lambda>(d, i). if d = 1 then 0 else i) (zip (replicate k 1) ks)) = 0"
      by (rule ravel_zeros[OF idx(2)])
    have p: "prod_list (replicate k (1::nat)) = 1" by (rule prod_list_ones) simp
    have l: "length (map (\<lambda>(d, i). if d = 1 then 0 else i) (zip (replicate k (1::nat)) ks)) =
               length (replicate k (1::nat))" using idx(2) by simp
    show ?thesis using z p idx(2) by (simp add: idx 0 ravel_simps del: One_nat_def)
  next
    case (Suc a)
    then have "a < k" using Suc.prems by simp
    from Suc.IH[OF idx(2) this] show ?thesis by (simp add: idx Suc ravel_simps)
  qed
qed

section \<open>\<^verbatim>\<open>multiply\<close>\<close>

lemma np_mul_scalar:
  assumes "shape b = []"
  shows "np_mul a b =
           Inr \<lparr>shape = shape a, flat = map (\<lambda>idx. item a idx * flat b ! 0) (indices (shape a))\<rparr>"
proof -
  have bs: "broadcast_shapes (shape a) (shape b) = Some (shape a)"
    using broadcast_dims_ones[of "shape a"] by (simp add: broadcast_shapes_def assms)
  have "item a (project (shape a) idx) * item b (project (shape b) idx) = item a idx * flat b ! 0"
    if "idx \<in> set (indices (shape a))" for idx
  proof -
    have p1: "project (shape a) idx = idx" by (rule project_same[OF that])
    have p2: "project (shape b) idx = []" by (simp add: project_def assms)
    show ?thesis unfolding p1 p2 by (simp add: item_def assms ravel_simps)
  qed
  then have "map (\<lambda>idx. item a (project (shape a) idx) * item b (project (shape b) idx))
               (indices (shape a)) =
             map (\<lambda>idx. item a idx * flat b ! 0) (indices (shape a))"
    by (intro map_cong) simp_all
  then show ?thesis by (simp add: np_mul_def bs)
qed

lemma np_mul_unit:
  assumes "axis < ndim a" and "shape a ! axis = m"
  shows "np_mul a \<lparr>shape = (replicate (ndim a) 1)[axis := m], flat = xs\<rparr> =
           Inr \<lparr>shape = shape a,
                flat = map (\<lambda>idx. item a idx * xs ! (idx ! axis)) (indices (shape a))\<rparr>"
proof -
  let ?t = "(replicate (ndim a) 1)[axis := m]"
  let ?b = "\<lparr>shape = ?t, flat = xs\<rparr>"
  have ax: "axis < length (shape a)" using assms(1) by (simp add: ndim_def)
  have "broadcast_shapes (shape a) ?t = broadcast_dims (shape a) ?t"
    by (simp add: broadcast_shapes_def ndim_def)
  also have "\<dots> = Some ((shape a)[axis := (if shape a ! axis = 1 then m else shape a ! axis)])"
    using broadcast_dims_unit[OF ax, of m] assms(2) by (simp add: ndim_def)
  also have "\<dots> = Some (shape a)" using assms(2) ax by (auto simp: list_update_same_conv)
  finally have bs: "broadcast_shapes (shape a) (shape ?b) = Some (shape a)" by simp
  have "item a (project (shape a) idx) * item ?b (project (shape ?b) idx) =
          item a idx * xs ! (idx ! axis)"
    if mem: "idx \<in> set (indices (shape a))" for idx
  proof -
    have l: "length idx = ndim a" and b: "idx ! axis < m"
      using mem ax assms(2) by (auto simp: in_indices ndim_def)
    have "project ?t idx = map (\<lambda>(d, i). if d = 1 then 0 else i) (zip ?t idx)"
      using l by (simp add: project_def)
    then have "ravel ?t (project ?t idx) = (if m = 1 then 0 else idx ! axis)"
      using ravel_unit[OF l assms(1), of m] by simp
    also have "\<dots> = idx ! axis" using b by auto
    finally show ?thesis by (simp add: project_same[OF mem] item_def)
  qed
  then have "map (\<lambda>idx. item a (project (shape a) idx) * item ?b (project (shape ?b) idx))
               (indices (shape a)) =
             map (\<lambda>idx. item a idx * xs ! (idx ! axis)) (indices (shape a))"
    by (intro map_cong) simp_all
  then show ?thesis unfolding np_mul_def bs by simp
qed

lemma np_mul_unit_fails:
  assumes "axis < ndim a" and "shape a ! axis \<noteq> m" and "shape a ! axis \<noteq> 1" and "m \<noteq> 1"
  shows "np_mul a \<lparr>shape = (replicate (ndim a) 1)[axis := m], flat = xs\<rparr> = Inl ValueError"
proof -
  have ax: "axis < length (shape a)" using assms(1) by (simp add: ndim_def)
  have "broadcast_shapes (shape a) ((replicate (ndim a) 1)[axis := m]) = None"
    using broadcast_dims_unit[OF ax, of m] assms(2-4) by (simp add: broadcast_shapes_def ndim_def)
  then show ?thesis by (simp add: np_mul_def)
qed

lemma np_mul_unit_stretches:
  assumes "axis < ndim a" and "shape a ! axis = 1 \<or> m = 1"
  shows "\<exists>r. np_mul a \<lparr>shape = (replicate (ndim a) 1)[axis := m], flat = xs\<rparr> = Inr r"
proof -
  have ax: "axis < length (shape a)" using assms(1) by (simp add: ndim_def)
  have "broadcast_shapes (shape a) ((replicate (ndim a) 1)[axis := m]) \<noteq> None"
    using broadcast_dims_unit[OF ax, of m] assms(2) by (auto simp: broadcast_shapes_def ndim_def)
  then show ?thesis by (auto simp: np_mul_def)
qed

lemma np_mul_unit_general:
  assumes "axis < ndim a" and "shape a ! axis = m \<or> shape a ! axis = 1 \<or> m = 1"
  shows "np_mul a \<lparr>shape = (replicate (ndim a) 1)[axis := m], flat = xs\<rparr> =
           Inr \<lparr>shape = (shape a)[axis := (if shape a ! axis = 1 then m else shape a ! axis)],
                flat = map (\<lambda>idx. item a (project (shape a) idx) * xs ! (if m = 1 then 0 else idx ! axis))
                         (indices ((shape a)[axis := (if shape a ! axis = 1 then m else shape a ! axis)]))\<rparr>"
proof -
  let ?t = "(replicate (ndim a) 1)[axis := m]"
  let ?b = "\<lparr>shape = ?t, flat = xs\<rparr>"
  let ?r = "(shape a)[axis := (if shape a ! axis = 1 then m else shape a ! axis)]"
  have ax: "axis < length (shape a)" using assms(1) by (simp add: ndim_def)
  have "broadcast_shapes (shape a) ?t = broadcast_dims (shape a) ?t"
    by (simp add: broadcast_shapes_def ndim_def)
  also have "\<dots> = Some ?r"
    using broadcast_dims_unit[OF ax, of m] assms(2) by (simp add: ndim_def)
  finally have bs: "broadcast_shapes (shape a) (shape ?b) = Some ?r" by simp
  have "item a (project (shape a) idx) * item ?b (project (shape ?b) idx) =
          item a (project (shape a) idx) * xs ! (if m = 1 then 0 else idx ! axis)"
    if mem: "idx \<in> set (indices ?r)" for idx
  proof -
    have l: "length idx = ndim a" using mem by (simp add: in_indices ndim_def)
    have "project ?t idx = map (\<lambda>(d, i). if d = 1 then 0 else i) (zip ?t idx)"
      using l by (simp add: project_def)
    then have "ravel ?t (project ?t idx) = (if m = 1 then 0 else idx ! axis)"
      using ravel_unit[OF l assms(1), of m] by simp
    then show ?thesis by (simp add: item_def)
  qed
  then have "map (\<lambda>idx. item a (project (shape a) idx) * item ?b (project (shape ?b) idx)) (indices ?r) =
             map (\<lambda>idx. item a (project (shape a) idx) * xs ! (if m = 1 then 0 else idx ! axis)) (indices ?r)"
    by (intro map_cong) simp_all
  then show ?thesis unfolding np_mul_def bs by simp
qed

text \<open>
  C5, as the code has it. Whenever \<^verbatim>\<open>multiply(T, U)\<close> returns, the result carries the
  axis labels of \<open>T\<close> and has the rank of \<open>T\<close>. When \<open>U\<close> has the single axis name \<open>n\<close>,
  which is a label of \<open>T\<close>, and \<open>T\<close> has one label per dimension, then \<open>n\<close> is found at a
  position \<open>axis\<close> of \<open>T\<close>. A rank-0 \<open>U\<close> is used as it is: \<^verbatim>\<open>multiply\<close> returns a tensor
  with the labels and the shape of \<open>T\<close>, every element of \<open>T\<close> scaled. A vector \<open>U\<close> of
  length \<open>m\<close> is reshaped to size \<open>m\<close> at \<open>axis\<close> and size 1 everywhere else, with its
  elements unchanged, and is multiplied in by broadcasting. When \<open>m\<close> is the size of \<open>T\<close>
  at \<open>axis\<close>, or one of the two sizes is 1, \<^verbatim>\<open>multiply\<close> returns a tensor with the labels
  and the rank of \<open>T\<close>; its shape is that of \<open>T\<close> with the larger of the two sizes at
  \<open>axis\<close>, and its element at a multi-index is the element of \<open>T\<close> there (at 0 along an
  axis of size 1) times the element of \<open>U\<close> at the component \<open>axis\<close> of the multi-index
  (at 0 when \<open>m\<close> is 1). When the two sizes differ and neither is 1, \<^verbatim>\<open>multiply\<close>
  returns no tensor: broadcasting raises \<^verbatim>\<open>ValueError\<close>.
\<close>

theorem multiply_broadcasts_along_axis:
  "(multiply T U = Inr R \<longrightarrow>
      axes_labels R = axes_labels T \<and> ndim (probs R) = ndim (probs T)) \<and>
   (axes_labels U = [n] \<and> n \<in> set (axes_labels T) \<and> length (axes_labels T) = ndim (probs T) \<longrightarrow>
      (\<exists>axis < ndim (probs T).
         get_axes T n = Some axis \<and> axes_labels T ! axis = n \<and>
         (shape (probs U) = [] \<longrightarrow>
            (\<exists>P. multiply T U = Inr P \<and> axes_labels P = axes_labels T \<and>
                 ndim (probs P) = ndim (probs T) \<and> shape (probs P) = shape (probs T) \<and>
                 flat (probs P) = map (\<lambda>idx. item (probs T) idx * flat (probs U) ! 0)
                                    (indices (shape (probs T))))) \<and>
         (\<forall>m. shape (probs U) = [m] \<longrightarrow>
            np_reshape (probs U) (map (\<lambda>i. if i = axis then -1 else 1) [0..<ndim (probs T)]) =
              Inr \<lparr>shape = (replicate (ndim (probs T)) 1)[axis := m], flat = flat (probs U)\<rparr> \<and>
            (shape (probs T) ! axis = m \<or> shape (probs T) ! axis = 1 \<or> m = 1 \<longrightarrow>
               (\<exists>P. multiply T U = Inr P \<and> axes_labels P = axes_labels T \<and>
                    ndim (probs P) = ndim (probs T) \<and>
                    shape (probs P) =
                      (shape (probs T))[axis := (if shape (probs T) ! axis = 1 then m
                                                 else shape (probs T) ! axis)] \<and>
                    flat (probs P) =
                      map (\<lambda>idx. item (probs T) (project (shape (probs T)) idx) *
                                 flat (probs U) ! (if m = 1 then 0 else idx ! axis))
                        (indices (shape (probs P))))) \<and>
            (shape (probs T) ! axis = m \<longrightarrow>
               (\<exists>P. multiply T U = Inr P \<and> shape (probs P) = shape (probs T) \<and>
                    flat (probs P) =
                      map (\<lambda>idx. item (probs T) idx * flat (probs U) ! (idx ! axis))
                        (indices (shape (probs T))))) \<and>
            (shape (probs T) ! axis \<noteq> m \<and> shape (probs T) ! axis \<noteq> 1 \<and> m \<noteq> 1 \<longrightarrow>
               multiply T U = Inl ValueError))))"
proof (intro conjI impI)
  assume "multiply T U = Inr R"
  then show "axes_labels R = axes_labels T" "ndim (probs R) = ndim (probs T)"
    using multiply_labels_rank by blast+
next
  assume h: "axes_labels U = [n] \<and> n \<in> set (axes_labels T) \<and> length (axes_labels T) = ndim (probs T)"
  then obtain axis where ax: "get_axes T n = Some axis"
    using dom_get_axes[of T] by (auto simp: dom_def)
  from get_axes_Some[OF ax] h have lt: "axis < ndim (probs T)" and nm: "axes_labels T ! axis = n"
    by simp_all
  let ?s = "shape (probs T)"
  have scalar: "\<exists>P. multiply T U = Inr P \<and> axes_labels P = axes_labels T \<and>
                 ndim (probs P) = ndim (probs T) \<and> shape (probs P) = ?s \<and>
                 flat (probs P) = map (\<lambda>idx. item (probs T) idx * flat (probs U) ! 0) (indices ?s)"
    if "shape (probs U) = []"
  proof -
    have "multiply T U =
              Inr \<lparr>probs = \<lparr>shape = ?s,
                             flat = map (\<lambda>idx. item (probs T) idx * flat (probs U) ! 0) (indices ?s)\<rparr>,
                   axes_labels = axes_labels T\<rparr>"
      using that h ax by (simp add: multiply_def np_mul_scalar)
    then show ?thesis by (simp add: ndim_def)
  qed
  have vec: "np_reshape (probs U) (map (\<lambda>i. if i = axis then -1 else 1) [0..<ndim (probs T)]) =
              Inr \<lparr>shape = (replicate (ndim (probs T)) 1)[axis := m], flat = flat (probs U)\<rparr> \<and>
            (?s ! axis = m \<or> ?s ! axis = 1 \<or> m = 1 \<longrightarrow>
               (\<exists>P. multiply T U = Inr P \<and> axes_labels P = axes_labels T \<and>
                    ndim (probs P) = ndim (probs T) \<and>
                    shape (probs P) = ?s[axis := (if ?s ! axis = 1 then m else ?s ! axis)] \<and>
                    flat (probs P) =
                      map (\<lambda>idx. item (probs T) (project ?s idx) *
                                 flat (probs U) ! (if m = 1 then 0 else idx ! axis))
                        (indices (shape (probs P))))) \<and>
            (?s ! axis = m \<longrightarrow>
               (\<exists>P. multiply T U = Inr P \<and> shape (probs P) = ?s \<and>
                    flat (probs P) =
                      map (\<lambda>idx. item (probs T) idx * flat (probs U) ! (idx ! axis)) (indices ?s))) \<and>
            (?s ! axis \<noteq> m \<and> ?s ! axis \<noteq> 1 \<and> m \<noteq> 1 \<longrightarrow> multiply T U = Inl ValueError)"
    if m: "shape (probs U) = [m]" for m
  proof -
    have sz: "np_size (probs U) = m" by (simp add: np_size_def m)
    have rs: "np_reshape (probs U) (map (\<lambda>i. if i = axis then -1 else 1) [0..<ndim (probs T)]) =
              Inr \<lparr>shape = (replicate (ndim (probs T)) 1)[axis := m], flat = flat (probs U)\<rparr>"
      using np_reshape_unit[OF lt, of "probs U"] sz by simp
    have mu: "multiply T U =
                (case np_mul (probs T) \<lparr>shape = (replicate (ndim (probs T)) 1)[axis := m], flat = flat (probs U)\<rparr> of
                   Inl e \<Rightarrow> Inl e
                 | Inr r \<Rightarrow> Inr \<lparr>probs = r, axes_labels = axes_labels T\<rparr>)"
      using h ax m rs by (simp add: multiply_def del: upt.simps)
    have 0: "\<exists>P. multiply T U = Inr P \<and> axes_labels P = axes_labels T \<and>
                    ndim (probs P) = ndim (probs T) \<and>
                    shape (probs P) = ?s[axis := (if ?s ! axis = 1 then m else ?s ! axis)] \<and>
                    flat (probs P) =
                      map (\<lambda>idx. item (probs T) (project ?s idx) *
                                 flat (probs U) ! (if m = 1 then 0 else idx ! axis))
                        (indices (shape (probs P)))"
      if c: "?s ! axis = m \<or> ?s ! axis = 1 \<or> m = 1"
      unfolding mu np_mul_unit_general[OF lt c] by (simp add: ndim_def)
    have 1: "\<exists>P. multiply T U = Inr P \<and> shape (probs P) = ?s \<and>
                    flat (probs P) =
                      map (\<lambda>idx. item (probs T) idx * flat (probs U) ! (idx ! axis)) (indices ?s)"
      if "?s ! axis = m"
      unfolding mu np_mul_unit[OF lt that] by simp
    have 3: "multiply T U = Inl ValueError"
      if "?s ! axis \<noteq> m \<and> ?s ! axis \<noteq> 1 \<and> m \<noteq> 1"
      using np_mul_unit_fails[OF lt, of m "flat (probs U)"] that unfolding mu by simp
    show ?thesis using rs 0 1 3 by blast
  qed
  show "\<exists>axis < ndim (probs T).
         get_axes T n = Some axis \<and> axes_labels T ! axis = n \<and>
         (shape (probs U) = [] \<longrightarrow>
            (\<exists>P. multiply T U = Inr P \<and> axes_labels P = axes_labels T \<and>
                 ndim (probs P) = ndim (probs T) \<and> shape (probs P) = shape (probs T) \<and>
                 flat (probs P) = map (\<lambda>idx. item (probs T) idx * flat (probs U) ! 0)
                                    (indices (shape (probs T))))) \<and>
         (\<forall>m. shape (probs U) = [m] \<longrightarrow>
            np_reshape (probs U) (map (\<lambda>i. if i = axis then -1 else 1) [0..<ndim (probs T)]) =
              Inr \<lparr>shape = (replicate (ndim (probs T)) 1)[axis := m], flat = flat (probs U)\<rparr> \<and>
            (shape (probs T) ! axis = m \<or> shape (probs T) ! axis = 1 \<or> m = 1 \<longrightarrow>
               (\<exists>P. multiply T U = Inr P \<and> axes_labels P = axes_labels T \<and>
                    ndim (probs P) = ndim (probs T) \<and>
                    shape (probs P) =
                      (shape (probs T))[axis := (if shape (probs T) ! axis = 1 then m
                                                 else shape (probs T) ! axis)] \<and>
                    flat (probs P) =
                      map (\<lambda>idx. item (probs T) (project (shape (probs T)) idx) *
                                 flat (probs U) ! (if m = 1 then 0 else idx ! axis))
                        (indices (shape (probs P))))) \<and>
            (shape (probs T) ! axis = m \<longrightarrow>
               (\<exists>P. multiply T U = Inr P \<and> shape (probs P) = shape (probs T) \<and>
                    flat (probs P) =
                      map (\<lambda>idx. item (probs T) idx * flat (probs U) ! (idx ! axis))
                        (indices (shape (probs T))))) \<and>
            (shape (probs T) ! axis \<noteq> m \<and> shape (probs T) ! axis \<noteq> 1 \<and> m \<noteq> 1 \<longrightarrow>
               multiply T U = Inl ValueError))"
    using lt ax nm scalar vec by blast
qed

text \<open>
  The claim as stated (a tensor is returned for every one-axis \<open>U\<close> whose axis name is a
  label of \<open>T\<close>) fails for a vector over \<open>h1\<close> of length 2 against a tensor that gives
  \<open>h1\<close> three states: \<^verbatim>\<open>multiply\<close> raises \<^verbatim>\<open>ValueError\<close>.
\<close>

theorem multiply_broadcasts_along_axis_counterexample:
  "axes_labels nb_p_h1_short = [''h1''] \<and> ''h1'' \<in> set (axes_labels nb_p_v1_given_h1) \<and>
   length (axes_labels nb_p_v1_given_h1) = ndim (probs nb_p_v1_given_h1) \<and>
   shape (probs nb_p_h1_short) = [2] \<and> shape (probs nb_p_v1_given_h1) = [2, 3] \<and>
   multiply nb_p_v1_given_h1 nb_p_h1_short = Inl ValueError"
  by code_simp

theorem multiply_broadcasts_along_axis_witness:
  "axes_labels nb_p_h1 = [''h1''] \<and> ''h1'' \<in> set (axes_labels nb_p_v1_given_h1) \<and>
   length (axes_labels nb_p_v1_given_h1) = ndim (probs nb_p_v1_given_h1) \<and>
   shape (probs nb_p_h1) = [3] \<and> get_axes nb_p_v1_given_h1 ''h1'' = Some 1 \<and>
   shape (probs nb_p_v1_given_h1) ! 1 = 3 \<and>
   multiply nb_p_v1_given_h1 nb_p_h1 = Inr nb_p_v1_h1 \<and>
   axes_labels nb_p_v1_h1 = axes_labels nb_p_v1_given_h1 \<and>
   ndim (probs nb_p_v1_h1) = ndim (probs nb_p_v1_given_h1) \<and>
   np_reshape (probs nb_p_h1) (map (\<lambda>i. if i = 1 then -1 else 1) [0..<ndim (probs nb_p_v1_given_h1)]) =
     Inr \<lparr>shape = (replicate (ndim (probs nb_p_v1_given_h1)) 1)[1 := 3], flat = flat (probs nb_p_h1)\<rparr> \<and>
   shape (probs nb_p_v1_h1) = shape (probs nb_p_v1_given_h1) \<and>
   flat (probs nb_p_v1_h1) =
     map (\<lambda>idx. item (probs nb_p_v1_given_h1) idx * flat (probs nb_p_h1) ! (idx ! 1))
       (indices (shape (probs nb_p_v1_given_h1))) \<and>
   shape (probs nb_p_h1_short) = [2] \<and>
   multiply nb_p_v1_given_h1 nb_p_h1_short = Inl ValueError"
proof -
  have a: "axes_labels nb_p_h1 = [''h1'']" by code_simp
  have b: "''h1'' \<in> set (axes_labels nb_p_v1_given_h1)" by code_simp
  have c: "length (axes_labels nb_p_v1_given_h1) = ndim (probs nb_p_v1_given_h1)" by code_simp
  have d: "shape (probs nb_p_h1) = [3]" by code_simp
  have e: "get_axes nb_p_v1_given_h1 ''h1'' = Some 1" by code_simp
  have f: "shape (probs nb_p_v1_given_h1) ! 1 = 3" by code_simp
  have g: "multiply nb_p_v1_given_h1 nb_p_h1 = Inr nb_p_v1_h1" by code_simp
  have a': "axes_labels nb_p_h1_short = [''h1'']" by code_simp
  have d': "shape (probs nb_p_h1_short) = [2]" by code_simp
  have ne: "shape (probs nb_p_v1_given_h1) ! 1 \<noteq> 2 \<and> shape (probs nb_p_v1_given_h1) ! 1 \<noteq> 1 \<and> (2::nat) \<noteq> 1"
    using f by simp
  from multiply_broadcasts_along_axis[of nb_p_v1_given_h1 nb_p_h1 nb_p_v1_h1 "''h1''"] a b c g
  obtain axis where
    1: "axes_labels nb_p_v1_h1 = axes_labels nb_p_v1_given_h1"
       "ndim (probs nb_p_v1_h1) = ndim (probs nb_p_v1_given_h1)"
    and 2: "get_axes nb_p_v1_given_h1 ''h1'' = Some axis"
    and 3: "\<forall>m. shape (probs nb_p_h1) = [m] \<longrightarrow>
            np_reshape (probs nb_p_h1)
                (map (\<lambda>i. if i = axis then -1 else 1) [0..<ndim (probs nb_p_v1_given_h1)]) =
              Inr \<lparr>shape = (replicate (ndim (probs nb_p_v1_given_h1)) 1)[axis := m],
                   flat = flat (probs nb_p_h1)\<rparr> \<and>
            (shape (probs nb_p_v1_given_h1) ! axis = m \<longrightarrow>
               (\<exists>P. multiply nb_p_v1_given_h1 nb_p_h1 = Inr P \<and>
                    shape (probs P) = shape (probs nb_p_v1_given_h1) \<and>
                    flat (probs P) =
                      map (\<lambda>idx. item (probs nb_p_v1_given_h1) idx * flat (probs nb_p_h1) ! (idx ! axis))
                        (indices (shape (probs nb_p_v1_given_h1)))))"
    by blast
  have axis: "axis = 1" using 2 e by simp
  from 3 d f have 4:
    "np_reshape (probs nb_p_h1) (map (\<lambda>i. if i = 1 then -1 else 1) [0..<ndim (probs nb_p_v1_given_h1)]) =
       Inr \<lparr>shape = (replicate (ndim (probs nb_p_v1_given_h1)) 1)[1 := 3], flat = flat (probs nb_p_h1)\<rparr>"
    "\<exists>P. multiply nb_p_v1_given_h1 nb_p_h1 = Inr P \<and>
          shape (probs P) = shape (probs nb_p_v1_given_h1) \<and>
          flat (probs P) =
            map (\<lambda>idx. item (probs nb_p_v1_given_h1) idx * flat (probs nb_p_h1) ! (idx ! 1))
              (indices (shape (probs nb_p_v1_given_h1)))"
    unfolding axis by blast+
  from 4(2) g have 5: "shape (probs nb_p_v1_h1) = shape (probs nb_p_v1_given_h1)"
    "flat (probs nb_p_v1_h1) =
            map (\<lambda>idx. item (probs nb_p_v1_given_h1) idx * flat (probs nb_p_h1) ! (idx ! 1))
              (indices (shape (probs nb_p_v1_given_h1)))"
    by auto
  from multiply_broadcasts_along_axis[of nb_p_v1_given_h1 nb_p_h1_short nb_p_v1_h1 "''h1''"] a' b c
  obtain axis' where
    6: "get_axes nb_p_v1_given_h1 ''h1'' = Some axis'"
    and 7: "\<forall>m. shape (probs nb_p_h1_short) = [m] \<longrightarrow>
            (shape (probs nb_p_v1_given_h1) ! axis' \<noteq> m \<and> shape (probs nb_p_v1_given_h1) ! axis' \<noteq> 1 \<and> m \<noteq> 1 \<longrightarrow>
               multiply nb_p_v1_given_h1 nb_p_h1_short = Inl ValueError)"
    by blast
  have axis': "axis' = 1" using 6 e by simp
  have 8: "multiply nb_p_v1_given_h1 nb_p_h1_short = Inl ValueError"
    using 7 d' ne unfolding axis' by blast
  show ?thesis using a b c d e f g 1 4(1) 5 d' 8 by blast
qed

section \<open>The message cache\<close>

lemma extends_refl [simp]: "extends w w"
  by (simp add: extends_def)

lemma extends_trans: "extends w w1 \<Longrightarrow> extends w1 w2 \<Longrightarrow> extends w w2"
  unfolding extends_def using map_le_trans by auto

lemma extends_store:
  assumes "extends w w'" and "messages w k = None"
  shows "extends w (w'\<lparr>messages := (messages w')(k \<mapsto> m)\<rparr>)"
  using assms unfolding extends_def map_le_def by (auto simp: dom_def)

lemma extends_lookup:
  assumes "extends w w'" and "messages w k = Some m"
  shows "messages w' k = Some m"
proof -
  have "k \<in> dom (messages w)" using assms(2) by (simp add: dom_def)
  then have "messages w k = messages w' k"
    using assms(1) unfolding extends_def map_le_def by blast
  then show ?thesis using assms(2) by simp
qed

lemma extends_lookups:
  assumes "extends w w'" and "map (\<lambda>g. messages w (key g)) xs = map Some ms"
  shows "map (\<lambda>g. messages w' (key g)) xs = map Some ms"
  using assms(2)
proof (induction xs arbitrary: ms)
  case Nil
  then show ?case by simp
next
  case (Cons x xs)
  then obtain m ms' where ms: "ms = m # ms'" and m: "messages w (key x) = Some m"
    and rest: "map (\<lambda>g. messages w (key g)) xs = map Some ms'"
    by (cases ms) auto
  show ?case using extends_lookup[OF assms(1) m] Cons.IH[OF rest] by (simp add: ms)
qed

lemma extends_objects: "extends w w' \<Longrightarrow> objects w' = objects w"
  by (simp add: extends_def)

lemma cachingD1: "caching send \<Longrightarrow> extends w (snd (send w a b))"
  by (simp add: caching_def)

lemma cachingD2:
  "caching send \<Longrightarrow> send w a b = (Inr m, w') \<Longrightarrow>
     messages w' (name (objects w a), name (objects w b)) = Some m"
  by (simp add: caching_def)

lemma incoming_extends:
  assumes "\<And>w a b. extends w (snd (send w a b))"
  shows "extends w (snd (incoming send w xs r))"
proof (induction xs arbitrary: w)
  case Nil
  then show ?case by simp
next
  case (Cons x xs)
  obtain o1 w1 where s: "send w x r = (o1, w1)" by (cases "send w x r")
  have e1: "extends w w1" using assms[of w x r] s by simp
  show ?case
  proof (cases o1)
    case (Inl e)
    then show ?thesis using s e1 by simp
  next
    case (Inr m)
    obtain o2 w2 where i: "incoming send w1 xs r = (o2, w2)" by (cases "incoming send w1 xs r")
    have "extends w1 w2" using Cons.IH[of w1] i by simp
    then have "extends w w2" using e1 extends_trans by blast
    then show ?thesis using s Inr i by (cases o2) simp_all
  qed
qed

lemma incoming_cached:
  assumes "caching send" and "incoming send w xs r = (Inr ms, w')"
  shows "map (\<lambda>g. messages w' (name (objects w g), name (objects w r))) xs = map Some ms"
  using assms(2)
proof (induction xs arbitrary: w ms)
  case Nil
  then show ?case by simp
next
  case (Cons x xs)
  from Cons.prems obtain m w1 ms' where
    s: "send w x r = (Inr m, w1)" and i: "incoming send w1 xs r = (Inr ms', w')" and ms: "ms = m # ms'"
    by (auto split: prod.splits sum.splits)
  have e1: "extends w w1" using cachingD1[OF assms(1), of w x r] s by simp
  have o1: "objects w1 = objects w" using e1 by (simp add: extends_def)
  have c1: "messages w1 (name (objects w x), name (objects w r)) = Some m"
    using cachingD2[OF assms(1) s] .
  have e2: "extends w1 w'"
    using incoming_extends[of send w1 xs r, OF cachingD1[OF assms(1)]] i by simp
  have "messages w' (name (objects w x), name (objects w r)) = Some m"
    using c1 e2 by (auto simp: extends_def map_le_def dom_def)
  moreover have "map (\<lambda>g. messages w' (name (objects w g), name (objects w r))) xs = map Some ms'"
    using Cons.IH[OF i] by (simp add: o1)
  ultimately show ?case by (simp add: ms)
qed

lemma multiply_in_extends:
  assumes "\<And>w a b. extends w (snd (send w a b))"
  shows "extends w (snd (multiply_in send w f us d))"
proof (induction us arbitrary: w d)
  case Nil
  then show ?case by simp
next
  case (Cons u us)
  obtain o1 w1 where s: "send w u f = (o1, w1)" by (cases "send w u f")
  have e1: "extends w w1" using assms[of w u f] s by simp
  show ?case
  proof (cases o1)
    case (Inl e)
    then show ?thesis using s e1 by simp
  next
    case (Inr m)
    show ?thesis
    proof (cases "multiply d \<lparr>probs = m, axes_labels = [name (objects w u)]\<rparr>")
      case (Inl e)
      then show ?thesis using s Inr e1 by simp
    next
      case r: (Inr d')
      have "extends w1 (snd (multiply_in send w1 f us d'))" by (rule Cons.IH)
      then show ?thesis using s Inr r e1 extends_trans by fastforce
    qed
  qed
qed

lemma priv_variable_to_factor_extends:
  assumes "\<And>w a b. extends w (snd (send w a b))"
  shows "extends w (snd (priv_variable_to_factor_messages send w v f))"
proof -
  let ?i = "incoming send w (filter (\<lambda>g. g \<noteq> f) (neighbors (objects w v))) v"
  have "extends w (snd ?i)" using assms by (rule incoming_extends)
  then show ?thesis
    by (cases ?i) (auto simp: priv_variable_to_factor_messages_def split: sum.splits)
qed

lemma priv_factor_to_variable_extends:
  assumes "\<And>w a b. extends w (snd (send w a b))"
  shows "extends w (snd (priv_factor_to_variable_messages send w f v))"
proof (cases "data (objects w f)")
  case None
  then show ?thesis by (simp add: priv_factor_to_variable_messages_def)
next
  case (Some d)
  let ?i = "multiply_in send w f
                  (filter (\<lambda>u. name (objects w u) \<noteq> name (objects w v)) (neighbors (objects w f)))
                  \<lparr>probs = probs d, axes_labels = axes_labels d\<rparr>"
  have "extends w (snd ?i)" using assms by (rule multiply_in_extends)
  then show ?thesis
    by (cases ?i) (auto simp: priv_factor_to_variable_messages_def Some split: sum.splits)
qed

lemma variable_to_factor_messages_caching:
  assumes "\<And>w a b. extends w (snd (compute w a b))"
  shows "caching (variable_to_factor_messages compute)"
  unfolding caching_def
proof (intro allI conjI impI)
  fix w :: "'a world" and a b
  show "extends w (snd (variable_to_factor_messages compute w a b))"
  proof (cases "messages w (name (objects w a), name (objects w b))")
    case None
    obtain o1 w1 where c: "compute w a b = (o1, w1)" by (cases "compute w a b")
    have e: "extends w w1" using assms[of w a b] c by simp
    show ?thesis
      using None c e extends_store[OF e None]
      by (cases o1) (simp_all add: variable_to_factor_messages_def)
  next
    case (Some m)
    then show ?thesis by (simp add: variable_to_factor_messages_def)
  qed
next
  fix w :: "'a world" and a b m w'
  assume "variable_to_factor_messages compute w a b = (Inr m, w')"
  then show "messages w' (name (objects w a), name (objects w b)) = Some m"
    by (auto simp: variable_to_factor_messages_def Let_def split: option.splits sum.splits prod.splits)
qed

lemma factor_to_variable_message_caching:
  assumes "\<And>w a b. extends w (snd (compute w a b))"
  shows "caching (factor_to_variable_message compute)"
  unfolding caching_def
proof (intro allI conjI impI)
  fix w :: "'a world" and a b
  show "extends w (snd (factor_to_variable_message compute w a b))"
  proof (cases "messages w (name (objects w a), name (objects w b))")
    case None
    obtain o1 w1 where c: "compute w a b = (o1, w1)" by (cases "compute w a b")
    have e: "extends w w1" using assms[of w a b] c by simp
    show ?thesis
      using None c e extends_store[OF e None]
      by (cases o1) (simp_all add: factor_to_variable_message_def)
  next
    case (Some m)
    then show ?thesis by (simp add: factor_to_variable_message_def)
  qed
next
  fix w :: "'a world" and a b m w'
  assume "factor_to_variable_message compute w a b = (Inr m, w')"
  then show "messages w' (name (objects w a), name (objects w b)) = Some m"
    by (auto simp: factor_to_variable_message_def Let_def split: option.splits sum.splits prod.splits)
qed

lemma send_caching:
  "caching (send_variable_to_factor depth) \<and> caching (send_factor_to_variable depth)"
proof (induction depth)
  case 0
  show ?case by (simp add: caching_def)
next
  case (Suc depth)
  have v: "extends w (snd (send_variable_to_factor depth w a b))" for w a b
    using Suc cachingD1 by blast
  have f: "extends w (snd (send_factor_to_variable depth w a b))" for w a b
    using Suc cachingD1 by blast
  have 1: "caching (variable_to_factor_messages
                      (priv_variable_to_factor_messages (\<lambda>w' f v. send_factor_to_variable depth w' f v)))"
    by (rule variable_to_factor_messages_caching, rule priv_variable_to_factor_extends, rule f)
  have 2: "caching (factor_to_variable_message
                      (priv_factor_to_variable_messages (\<lambda>w' v f. send_variable_to_factor depth w' v f)))"
    by (rule factor_to_variable_message_caching, rule priv_factor_to_variable_extends, rule v)
  have "send_variable_to_factor (Suc depth) =
          variable_to_factor_messages
            (priv_variable_to_factor_messages (\<lambda>w' f v. send_factor_to_variable depth w' f v))"
    by (intro ext) simp
  moreover have "send_factor_to_variable (Suc depth) =
          factor_to_variable_message
            (priv_factor_to_variable_messages (\<lambda>w' v f. send_variable_to_factor depth w' v f))"
    by (intro ext) simp
  ultimately show ?case using 1 2 by simp
qed

lemma marginal_extends: "extends w (snd (marginal depth w v))"
proof -
  let ?s = "\<lambda>w' f v. send_factor_to_variable depth w' f v"
  let ?i = "incoming ?s w (neighbors (objects w v)) v"
  have "extends w (snd ?i)"
    by (rule incoming_extends) (use send_caching cachingD1 in blast)
  then show ?thesis
    by (cases ?i) (auto simp: marginal_def priv_marginal_def split: sum.splits)
qed

lemma send_Suc:
  "send_variable_to_factor (Suc n) =
     variable_to_factor_messages
       (priv_variable_to_factor_messages (\<lambda>w f v. send_factor_to_variable n w f v))"
  "send_factor_to_variable (Suc n) =
     factor_to_variable_message
       (priv_factor_to_variable_messages (\<lambda>w v f. send_variable_to_factor n w v f))"
  by (intro ext, simp)+

text \<open>
  A request that has been served is served from the cache afterwards: every incoming
  message of a marginal is found there.
\<close>

lemma incoming_hits:
  assumes "map (\<lambda>g. messages w (name (objects w g), name (objects w r))) xs = map Some ms"
  shows "incoming (send_factor_to_variable (Suc d)) w xs r = (Inr ms, w)"
  using assms
proof (induction xs arbitrary: ms)
  case Nil
  then show ?case by simp
next
  case (Cons x xs)
  then obtain m ms' where ms: "ms = m # ms'"
    and m: "messages w (name (objects w x), name (objects w r)) = Some m"
    and rest: "map (\<lambda>g. messages w (name (objects w g), name (objects w r))) xs = map Some ms'"
    by (cases ms) auto
  have "send_factor_to_variable (Suc d) w x r = (Inr m, w)"
    using m by (simp add: factor_to_variable_message_def)
  then show ?case using Cons.IH[OF rest] by (simp add: ms)
qed

lemma marginal_repeated_later:
  assumes "marginal depth w v = (Inr p, w1)" and "extends w1 w2"
  shows "marginal (Suc d) w2 v = (Inr p, w2)"
proof -
  let ?s = "\<lambda>w' f v. send_factor_to_variable depth w' f v"
  from assms(1) obtain ms unnorm q where
    i: "incoming ?s w (neighbors (objects w v)) v = (Inr ms, w1)"
    and p: "np_prod ms = Inr unnorm" "normalize unnorm = Inr q"
       "p = \<lparr>probs = q, axes_labels = [name (objects w v)]\<rparr>"
    by (auto simp: marginal_def priv_marginal_def split: prod.splits sum.splits)
  have cs: "caching ?s" using send_caching[of depth] by simp
  have o1: "objects w1 = objects w"
    using incoming_extends[of ?s w "neighbors (objects w v)" v, OF cachingD1[OF cs]] i
    by (simp add: extends_def)
  have o: "objects w2 = objects w" using extends_objects[OF assms(2)] o1 by simp
  have c1: "map (\<lambda>g. messages w1 (name (objects w g), name (objects w v))) (neighbors (objects w v)) =
          map Some ms"
    using incoming_cached[OF cs i] .
  have "map (\<lambda>g. messages w2 (name (objects w g), name (objects w v))) (neighbors (objects w v)) =
          map Some ms"
    using extends_lookups[OF assms(2), of "\<lambda>g. (name (objects w g), name (objects w v))", OF c1] .
  then have "map (\<lambda>g. messages w2 (name (objects w2 g), name (objects w2 v))) (neighbors (objects w2 v)) =
          map Some ms"
    by (simp add: o)
  from incoming_hits[OF this, of d]
  have "incoming (\<lambda>w' f v. send_factor_to_variable (Suc d) w' f v) w2 (neighbors (objects w2 v)) v =
          (Inr ms, w2)" .
  then show ?thesis
    unfolding marginal_def priv_marginal_def using p
    by (simp add: o del: send_factor_to_variable.simps send_variable_to_factor.simps)
qed

lemma serve_extends: "extends w (serve r w)"
proof (cases r)
  case (Marginal depth v)
  then show ?thesis by (simp add: marginal_extends)
next
  case (VariableToFactor depth v f)
  then show ?thesis using send_caching[of depth] cachingD1 by auto
next
  case (FactorToVariable depth f v)
  then show ?thesis using send_caching[of depth] cachingD1 by auto
qed

lemma fold_serve_extends: "extends w (fold serve rs w)"
proof (induction rs arbitrary: w)
  case Nil
  then show ?case by simp
next
  case (Cons r rs)
  have "extends w (serve r w)" by (rule serve_extends)
  moreover have "extends (serve r w) (fold serve rs (serve r w))" by (rule Cons.IH)
  ultimately show ?case using extends_trans by fastforce
qed

text \<open>
  C3. Whatever the private method is: a request for a message that is in the cache, under
  (sender name, receiver name), returns the cached value and leaves the state, cache
  included, exactly as it was, so nothing is computed; a request that returns leaves its
  value in the cache under that key, and in every later state that still holds the entries
  of that one (the nodes keeping their names) a request for the same edge returns the
  identical value and adds no entry; and a request keeps every entry of the cache when the
  private method does. Over the life of the engine: whatever requests, marginals or
  messages, in any number and at any depth, are served, every entry of the cache stays as
  it is; after them, a request for a message that has been returned once returns the
  identical value and leaves the state as it is, whatever the private method would do, and
  a request for a marginal that has been returned once returns the identical distribution
  and leaves the state as it is.
\<close>

theorem cached_message_is_reused:
  "(messages w (name (objects w v), name (objects w f)) = Some m \<longrightarrow>
      variable_to_factor_messages compute w v f = (Inr m, w)) \<and>
   (messages w (name (objects w f), name (objects w v)) = Some m \<longrightarrow>
      factor_to_variable_message compute w f v = (Inr m, w)) \<and>
   (variable_to_factor_messages compute w v f = (Inr m, w') \<longrightarrow>
      messages w' (name (objects w v), name (objects w f)) = Some m \<and>
      (name (objects w' v) = name (objects w v) \<and> name (objects w' f) = name (objects w f) \<and>
       extends w' w'' \<longrightarrow>
         variable_to_factor_messages compute' w'' v f = (Inr m, w''))) \<and>
   (factor_to_variable_message compute w f v = (Inr m, w') \<longrightarrow>
      messages w' (name (objects w f), name (objects w v)) = Some m \<and>
      (name (objects w' v) = name (objects w v) \<and> name (objects w' f) = name (objects w f) \<and>
       extends w' w'' \<longrightarrow>
         factor_to_variable_message compute' w'' f v = (Inr m, w''))) \<and>
   ((\<forall>x a b. extends x (snd (compute x a b))) \<longrightarrow>
      extends w (snd (variable_to_factor_messages compute w v f)) \<and>
      extends w (snd (factor_to_variable_message compute w f v))) \<and>
   extends u (fold serve rs u) \<and>
   (send_variable_to_factor depth u a b = (Inr x, u1) \<longrightarrow>
      variable_to_factor_messages cmp (fold serve rs u1) a b = (Inr x, fold serve rs u1) \<and>
      send_variable_to_factor (Suc d) (fold serve rs u1) a b = (Inr x, fold serve rs u1)) \<and>
   (send_factor_to_variable depth u a b = (Inr x, u1) \<longrightarrow>
      factor_to_variable_message cmp (fold serve rs u1) a b = (Inr x, fold serve rs u1) \<and>
      send_factor_to_variable (Suc d) (fold serve rs u1) a b = (Inr x, fold serve rs u1)) \<and>
   (marginal depth u a = (Inr p, u1) \<longrightarrow>
      marginal (Suc d) (fold serve rs u1) a = (Inr p, fold serve rs u1))"
proof -
  have hit1: "variable_to_factor_messages c s i j = (Inr y, s)"
    if "messages s (name (objects s i), name (objects s j)) = Some y"
    for c and s :: "'z world" and i j y
    using that by (simp add: variable_to_factor_messages_def)
  have hit2: "factor_to_variable_message c s i j = (Inr y, s)"
    if "messages s (name (objects s i), name (objects s j)) = Some y"
    for c and s :: "'z world" and i j y
    using that by (simp add: factor_to_variable_message_def)
  have st1: "messages w' (name (objects w v), name (objects w f)) = Some m"
    if "variable_to_factor_messages compute w v f = (Inr m, w')"
    using that
    by (auto simp: variable_to_factor_messages_def Let_def split: option.splits sum.splits prod.splits)
  have st2: "messages w' (name (objects w f), name (objects w v)) = Some m"
    if "factor_to_variable_message compute w f v = (Inr m, w')"
    using that
    by (auto simp: factor_to_variable_message_def Let_def split: option.splits sum.splits prod.splits)
  have later1: "variable_to_factor_messages compute' w'' v f = (Inr m, w'')"
    if r: "variable_to_factor_messages compute w v f = (Inr m, w')"
      and n: "name (objects w' v) = name (objects w v)" "name (objects w' f) = name (objects w f)"
      and e: "extends w' w''"
  proof -
    have "messages w'' (name (objects w v), name (objects w f)) = Some m"
      using extends_lookup[OF e st1[OF r]] .
    then have "messages w'' (name (objects w'' v), name (objects w'' f)) = Some m"
      using n extends_objects[OF e] by simp
    then show ?thesis by (rule hit1)
  qed
  have later2: "factor_to_variable_message compute' w'' f v = (Inr m, w'')"
    if r: "factor_to_variable_message compute w f v = (Inr m, w')"
      and n: "name (objects w' v) = name (objects w v)" "name (objects w' f) = name (objects w f)"
      and e: "extends w' w''"
  proof -
    have "messages w'' (name (objects w f), name (objects w v)) = Some m"
      using extends_lookup[OF e st2[OF r]] .
    then have "messages w'' (name (objects w'' f), name (objects w'' v)) = Some m"
      using n extends_objects[OF e] by simp
    then show ?thesis by (rule hit2)
  qed
  have keep: "extends w (snd (variable_to_factor_messages compute w v f)) \<and>
              extends w (snd (factor_to_variable_message compute w f v))"
    if c: "\<forall>x a b. extends x (snd (compute x a b))"
  proof -
    have c': "\<And>x a b. extends x (snd (compute x a b))" using c by blast
    show ?thesis
      using cachingD1[OF variable_to_factor_messages_caching[of compute, OF c']]
            cachingD1[OF factor_to_variable_message_caching[of compute, OF c']]
      by blast
  qed
  let ?u2 = "fold serve rs u1"
  have e2: "extends u1 ?u2" by (rule fold_serve_extends)
  have life1: "variable_to_factor_messages cmp ?u2 a b = (Inr x, ?u2) \<and>
               send_variable_to_factor (Suc d) ?u2 a b = (Inr x, ?u2)"
    if r: "send_variable_to_factor depth u a b = (Inr x, u1)"
  proof -
    have cs: "caching (send_variable_to_factor depth)" using send_caching[of depth] by simp
    have "messages u1 (name (objects u a), name (objects u b)) = Some x"
      using cachingD2[OF cs r] .
    then have k: "messages ?u2 (name (objects u a), name (objects u b)) = Some x"
      using extends_lookup[OF e2] by blast
    have "objects u1 = objects u" using cachingD1[OF cs, of u a b] r by (simp add: extends_def)
    then have "objects ?u2 = objects u" using extends_objects[OF e2] by simp
    then have k': "messages ?u2 (name (objects ?u2 a), name (objects ?u2 b)) = Some x"
      using k by simp
    show ?thesis using hit1[OF k'] by (simp add: send_Suc)
  qed
  have life2: "factor_to_variable_message cmp ?u2 a b = (Inr x, ?u2) \<and>
               send_factor_to_variable (Suc d) ?u2 a b = (Inr x, ?u2)"
    if r: "send_factor_to_variable depth u a b = (Inr x, u1)"
  proof -
    have cs: "caching (send_factor_to_variable depth)" using send_caching[of depth] by simp
    have "messages u1 (name (objects u a), name (objects u b)) = Some x"
      using cachingD2[OF cs r] .
    then have k: "messages ?u2 (name (objects u a), name (objects u b)) = Some x"
      using extends_lookup[OF e2] by blast
    have "objects u1 = objects u" using cachingD1[OF cs, of u a b] r by (simp add: extends_def)
    then have "objects ?u2 = objects u" using extends_objects[OF e2] by simp
    then have k': "messages ?u2 (name (objects ?u2 a), name (objects ?u2 b)) = Some x"
      using k by simp
    show ?thesis using hit2[OF k'] by (simp add: send_Suc)
  qed
  have life3: "marginal (Suc d) ?u2 a = (Inr p, ?u2)" if "marginal depth u a = (Inr p, u1)"
    using marginal_repeated_later[OF that e2] .
  have grow: "extends u (fold serve rs u)" by (rule fold_serve_extends)
  show ?thesis
    using hit1[of w v f m compute] hit2[of w f v m compute] st1 st2 later1 later2 keep grow
          life1 life2 life3
    by blast
qed


section \<open>Messages\<close>

lemma send_objects:
  "objects (snd (send_factor_to_variable depth w f v)) = objects w"
  "objects (snd (send_variable_to_factor depth w v f)) = objects w"
  using send_caching[of depth] cachingD1 unfolding extends_def by blast+

lemma item_indices_nth:
  assumes "i < prod_list (shape a)"
  shows "item a (indices (shape a) ! i) = flat a ! i"
proof -
  have "ravel (shape a) (indices (shape a) ! i) = map (ravel (shape a)) (indices (shape a)) ! i"
    using assms by (simp add: length_indices)
  also have "\<dots> = i" using assms by (simp add: ravel_indices)
  finally show ?thesis by (simp add: item_def)
qed

lemma broadcast_dims_same: "broadcast_dims s s = Some s"
  by (induction s) simp_all

lemma np_mul_same_shape:
  assumes "shape b = shape a"
  shows "np_mul a b =
           Inr \<lparr>shape = shape a, flat = map (\<lambda>idx. item a idx * item b idx) (indices (shape a))\<rparr>"
proof -
  have bs: "broadcast_shapes (shape a) (shape b) = Some (shape a)"
    by (simp add: broadcast_shapes_def assms broadcast_dims_same)
  have "map (\<lambda>idx. item a (project (shape a) idx) * item b (project (shape b) idx))
               (indices (shape a)) =
        map (\<lambda>idx. item a idx * item b idx) (indices (shape a))"
    by (intro map_cong) (simp_all add: assms project_same)
  then show ?thesis by (simp add: np_mul_def bs)
qed

lemma np_prod_same_shape:
  assumes "ms \<noteq> []" and "\<forall>m \<in> set ms. shape m = s"
  shows "\<exists>r. np_prod ms = Inr r \<and> shape r = s \<and> length (flat r) = prod_list s \<and>
             (\<forall>i < prod_list s. flat r ! i = prod_list (map (\<lambda>m. flat m ! i) ms))"
  using assms
proof (induction ms)
  case Nil
  then show ?case by simp
next
  case (Cons m ms)
  have sm: "shape m = s" using Cons.prems(2) by simp
  show ?case
  proof (cases "ms = []")
    case True
    let ?r = "\<lparr>shape = shape m, flat = map (\<lambda>idx. item m idx * flat (scalar 1) ! 0) (indices (shape m))\<rparr>"
    have p: "np_prod (m # ms) = Inr ?r"
      using np_mul_scalar[of "scalar 1" m] by (simp add: True scalar_def)
    have "flat ?r ! i = flat m ! i" if "i < prod_list s" for i
      using that item_indices_nth[of i m] by (simp add: sm length_indices scalar_def)
    then show ?thesis unfolding p using sm True by (simp add: length_indices)
  next
    case False
    from Cons.IH[OF False] Cons.prems(2) obtain r' where
      r': "np_prod ms = Inr r'" "shape r' = s"
      and el: "\<forall>i < prod_list s. flat r' ! i = prod_list (map (\<lambda>m. flat m ! i) ms)"
      by auto
    let ?r = "\<lparr>shape = shape m, flat = map (\<lambda>idx. item m idx * item r' idx) (indices (shape m))\<rparr>"
    have p: "np_prod (m # ms) = Inr ?r"
      using np_mul_same_shape[of r' m] r' sm by simp
    have "flat ?r ! i = flat m ! i * prod_list (map (\<lambda>m. flat m ! i) ms)" if "i < prod_list s" for i
    proof -
      have "flat ?r ! i = item m (indices s ! i) * item r' (indices s ! i)"
        using that by (simp add: sm length_indices)
      also have "\<dots> = flat m ! i * flat r' ! i"
        using item_indices_nth[of i m] item_indices_nth[of i r'] that sm r'(2) by simp
      finally show ?thesis using el that by simp
    qed
    then show ?thesis unfolding p using sm by (simp add: length_indices)
  qed
qed

text \<open>
  C4. A request, with depth left, for the message from variable \<open>v\<close> to factor \<open>f\<close> that
  is not in the cache. When \<open>v\<close> has no neighbor other than \<open>f\<close>, the request returns the
  scalar 1 and stores it. Otherwise the messages to \<open>v\<close> from its neighbor factors other
  than \<open>f\<close> are requested in neighbor order. An exception among them is the outcome of the
  request. When they arrive, each is in the cache under its edge, and the request returns
  their product and stores it: for messages of one shape \<open>s\<close>, the product has shape \<open>s\<close>
  and each of its elements is the product of the elements of the messages at the same
  position.
\<close>

theorem variable_to_factor_is_product:
  assumes "messages w (name (objects w v), name (objects w f)) = None"
  shows
    "(filter (\<lambda>g. g \<noteq> f) (neighbors (objects w v)) = [] \<longrightarrow>
        send_variable_to_factor (Suc d) w v f =
          (Inr (scalar 1),
           w\<lparr>messages := (messages w)((name (objects w v), name (objects w f)) \<mapsto> scalar 1)\<rparr>)) \<and>
     (incoming (send_factor_to_variable d) w
          (filter (\<lambda>g. g \<noteq> f) (neighbors (objects w v))) v = (Inl e, w1) \<longrightarrow>
        send_variable_to_factor (Suc d) w v f = (Inl e, w1)) \<and>
     (incoming (send_factor_to_variable d) w
          (filter (\<lambda>g. g \<noteq> f) (neighbors (objects w v))) v = (Inr ms, w1) \<longrightarrow>
        map (\<lambda>g. messages w1 (name (objects w g), name (objects w v)))
          (filter (\<lambda>g. g \<noteq> f) (neighbors (objects w v))) = map Some ms \<and>
        send_variable_to_factor (Suc d) w v f =
          (case np_prod ms of
             Inl e' \<Rightarrow> (Inl e', w1)
           | Inr r \<Rightarrow>
               (Inr r, w1\<lparr>messages := (messages w1)((name (objects w v), name (objects w f)) \<mapsto> r)\<rparr>)) \<and>
        (ms \<noteq> [] \<and> (\<forall>m \<in> set ms. shape m = s) \<longrightarrow>
           (\<exists>r. send_variable_to_factor (Suc d) w v f =
                   (Inr r, w1\<lparr>messages := (messages w1)((name (objects w v), name (objects w f)) \<mapsto> r)\<rparr>) \<and>
                shape r = s \<and> length (flat r) = prod_list s \<and>
                (\<forall>i < prod_list s. flat r ! i = prod_list (map (\<lambda>m. flat m ! i) ms)))))"
proof -
  let ?gs = "filter (\<lambda>g. g \<noteq> f) (neighbors (objects w v))"
  let ?key = "(name (objects w v), name (objects w f))"
  let ?send = "send_factor_to_variable d"
  have unfold: "send_variable_to_factor (Suc d) w v f =
          (case priv_variable_to_factor_messages ?send w v f of
             (Inl e, w') \<Rightarrow> (Inl e, w')
           | (Inr m, w') \<Rightarrow> (Inr m, w'\<lparr>messages := (messages w')(?key \<mapsto> m)\<rparr>))"
    using assms by (simp add: variable_to_factor_messages_def)
  have err: "send_variable_to_factor (Suc d) w v f = (Inl e, w1)"
    if "incoming ?send w ?gs v = (Inl e, w1)"
    unfolding unfold using that by (simp add: priv_variable_to_factor_messages_def)
  have ok: "send_variable_to_factor (Suc d) w v f =
          (case np_prod ms of
             Inl e' \<Rightarrow> (Inl e', w1)
           | Inr r \<Rightarrow> (Inr r, w1\<lparr>messages := (messages w1)(?key \<mapsto> r)\<rparr>))"
    if "incoming ?send w ?gs v = (Inr ms, w1)" for ms w1
    unfolding unfold using that
    by (simp add: priv_variable_to_factor_messages_def split: sum.splits)
  have leaf: "send_variable_to_factor (Suc d) w v f =
          (Inr (scalar 1), w\<lparr>messages := (messages w)(?key \<mapsto> scalar 1)\<rparr>)"
    if "?gs = []"
  proof -
    have "incoming ?send w ?gs v = (Inr [], w)" using that by simp
    from ok[OF this] show ?thesis by simp
  qed
  have cs: "caching ?send" using send_caching[of d] by simp
  have cached: "map (\<lambda>g. messages w1 (name (objects w g), name (objects w v))) ?gs = map Some ms"
    if "incoming ?send w ?gs v = (Inr ms, w1)"
    using incoming_cached[OF cs that] .
  have prod: "\<exists>r. send_variable_to_factor (Suc d) w v f =
                   (Inr r, w1\<lparr>messages := (messages w1)(?key \<mapsto> r)\<rparr>) \<and>
                shape r = s \<and> length (flat r) = prod_list s \<and>
                (\<forall>i < prod_list s. flat r ! i = prod_list (map (\<lambda>m. flat m ! i) ms))"
    if i: "incoming ?send w ?gs v = (Inr ms, w1)" and ne: "ms \<noteq> []" and sh: "\<forall>m \<in> set ms. shape m = s"
  proof -
    from np_prod_same_shape[OF ne sh] obtain r where
      r: "np_prod ms = Inr r" "shape r = s" "length (flat r) = prod_list s"
         "\<forall>i < prod_list s. flat r ! i = prod_list (map (\<lambda>m. flat m ! i) ms)"
      by blast
    have "send_variable_to_factor (Suc d) w v f =
            (Inr r, w1\<lparr>messages := (messages w1)(?key \<mapsto> r)\<rparr>)"
      using ok[OF i] r(1) by simp
    then show ?thesis using r by blast
  qed
  show ?thesis using leaf err ok cached prod by blast
qed

text \<open>
  C9. Computing a factor-to-variable message, to any depth and whatever its outcome,
  leaves every object of the graph as it was, the distribution stored in each factor
  included. \<^verbatim>\<open>multiply\<close> on existing tensor objects changes no existing array, label
  list or tensor object, so both operands read as before; the tensor it returns is a new
  object with a new array, holding the product.
\<close>

theorem message_passing_leaves_tensors_alone:
  "objects (snd (send_factor_to_variable depth w f v)) = objects w \<and>
   (allocated s t \<and> allocated s u \<longrightarrow>
      (\<forall>a < next_array s. arrays (snd (multiply_at s t u)) a = arrays s a) \<and>
      label_lists (snd (multiply_at s t u)) = label_lists s \<and>
      (\<forall>d < next_tensor s. tensors (snd (multiply_at s t u)) d = tensors s d) \<and>
      load (snd (multiply_at s t u)) t = load s t \<and>
      load (snd (multiply_at s t u)) u = load s u \<and>
      (\<forall>r. fst (multiply_at s t u) = Inr r \<longrightarrow>
           r = next_tensor s \<and> fst (tensors (snd (multiply_at s t u)) r) = next_array s \<and>
           multiply (load s t) (load s u) = Inr (load (snd (multiply_at s t u)) r)))"
proof (intro conjI impI)
  show "objects (snd (send_factor_to_variable depth w f v)) = objects w"
    by (rule send_objects)
next
  assume a: "allocated s t \<and> allocated s u"
  show "\<forall>a < next_array s. arrays (snd (multiply_at s t u)) a = arrays s a"
    by (auto simp: multiply_at_def split: sum.splits)
  show "label_lists (snd (multiply_at s t u)) = label_lists s"
    by (auto simp: multiply_at_def split: sum.splits)
  show "\<forall>d < next_tensor s. tensors (snd (multiply_at s t u)) d = tensors s d"
    by (auto simp: multiply_at_def split: sum.splits)
  show "load (snd (multiply_at s t u)) t = load s t"
    using a by (auto simp: multiply_at_def load_def allocated_def split: sum.splits)
  show "load (snd (multiply_at s t u)) u = load s u"
    using a by (auto simp: multiply_at_def load_def allocated_def split: sum.splits)
  show "\<forall>r. fst (multiply_at s t u) = Inr r \<longrightarrow>
           r = next_tensor s \<and> fst (tensors (snd (multiply_at s t u)) r) = next_array s \<and>
           multiply (load s t) (load s u) = Inr (load (snd (multiply_at s t u)) r)"
  proof (cases "multiply (load s t) (load s u)")
    case (Inl e)
    then show ?thesis by (simp add: multiply_at_def)
  next
    case (Inr p)
    have "axes_labels p = label_lists s (snd (tensors s t))"
      using multiply_labels_rank[OF Inr] by (simp add: load_def)
    have m: "multiply_at s t u =
          (Inr (next_tensor s),
           s\<lparr>arrays := (arrays s)(next_array s := probs p),
             tensors := (tensors s)(next_tensor s := (next_array s, snd (tensors s t))),
             next_array := Suc (next_array s),
             next_tensor := Suc (next_tensor s)\<rparr>)"
      by (simp add: multiply_at_def Inr)
    have "load (snd (multiply_at s t u)) (next_tensor s) = p"
      unfolding m using \<open>axes_labels p = label_lists s (snd (tensors s t))\<close>
      by (simp add: load_def)
    then show ?thesis unfolding Inr by (simp add: m)
  qed
qed

section \<open>Enough depth\<close>

lemma refinesD:
  "refines send send' \<Longrightarrow> fst (send w a b) \<noteq> Inl RecursionError \<Longrightarrow> send' w a b = send w a b"
  by (simp add: refines_def)

lemma incoming_refines:
  assumes "refines send send'" and "fst (incoming send w xs r) \<noteq> Inl RecursionError"
  shows "incoming send' w xs r = incoming send w xs r"
  using assms(2)
proof (induction xs arbitrary: w)
  case Nil
  then show ?case by simp
next
  case (Cons x xs)
  obtain o1 w1 where s: "send w x r = (o1, w1)" by (cases "send w x r")
  have ne: "o1 \<noteq> Inl RecursionError"
    using Cons.prems s by (cases o1) (auto split: prod.splits sum.splits)
  have s': "send' w x r = (o1, w1)" using refinesD[OF assms(1), of w x r] s ne by simp
  show ?case
  proof (cases o1)
    case (Inl e)
    then show ?thesis using s s' by simp
  next
    case (Inr m)
    have "fst (incoming send w1 xs r) \<noteq> Inl RecursionError"
      using Cons.prems s Inr by (auto split: prod.splits sum.splits)
    from Cons.IH[OF this] show ?thesis using s s' Inr by simp
  qed
qed

lemma multiply_in_refines:
  assumes "refines send send'" and "fst (multiply_in send w f us d) \<noteq> Inl RecursionError"
  shows "multiply_in send' w f us d = multiply_in send w f us d"
  using assms(2)
proof (induction us arbitrary: w d)
  case Nil
  then show ?case by simp
next
  case (Cons u us)
  obtain o1 w1 where s: "send w u f = (o1, w1)" by (cases "send w u f")
  have ne: "o1 \<noteq> Inl RecursionError"
    using Cons.prems s by (cases o1) (auto split: prod.splits sum.splits)
  have s': "send' w u f = (o1, w1)" using refinesD[OF assms(1), of w u f] s ne by simp
  show ?case
  proof (cases o1)
    case (Inl e)
    then show ?thesis using s s' by simp
  next
    case (Inr m)
    show ?thesis
    proof (cases "multiply d \<lparr>probs = m, axes_labels = [name (objects w u)]\<rparr>")
      case (Inl e)
      then show ?thesis using s s' Inr by simp
    next
      case r: (Inr d')
      have "fst (multiply_in send w1 f us d') \<noteq> Inl RecursionError"
        using Cons.prems s Inr r by simp
      from Cons.IH[OF this] show ?thesis using s s' Inr r by simp
    qed
  qed
qed

lemma priv_variable_to_factor_refines:
  assumes "refines send send'"
  shows "refines (priv_variable_to_factor_messages send) (priv_variable_to_factor_messages send')"
  unfolding refines_def
proof (intro allI impI)
  fix w v f
  assume ne: "fst (priv_variable_to_factor_messages send w v f) \<noteq> Inl RecursionError"
  let ?gs = "filter (\<lambda>g. g \<noteq> f) (neighbors (objects w v))"
  have "fst (incoming send w ?gs v) \<noteq> Inl RecursionError"
    using ne by (auto simp: priv_variable_to_factor_messages_def split: prod.splits sum.splits)
  from incoming_refines[OF assms this]
  show "priv_variable_to_factor_messages send' w v f = priv_variable_to_factor_messages send w v f"
    by (simp add: priv_variable_to_factor_messages_def)
qed

lemma priv_factor_to_variable_refines:
  assumes "refines send send'"
  shows "refines (priv_factor_to_variable_messages send) (priv_factor_to_variable_messages send')"
  unfolding refines_def
proof (intro allI impI)
  fix w f v
  assume ne: "fst (priv_factor_to_variable_messages send w f v) \<noteq> Inl RecursionError"
  show "priv_factor_to_variable_messages send' w f v = priv_factor_to_variable_messages send w f v"
  proof (cases "data (objects w f)")
    case None
    then show ?thesis by (simp add: priv_factor_to_variable_messages_def)
  next
    case (Some d)
    let ?us = "filter (\<lambda>u. name (objects w u) \<noteq> name (objects w v)) (neighbors (objects w f))"
    have "fst (multiply_in send w f ?us \<lparr>probs = probs d, axes_labels = axes_labels d\<rparr>) \<noteq> Inl RecursionError"
      using ne Some
      by (auto simp: priv_factor_to_variable_messages_def split: prod.splits sum.splits)
    from multiply_in_refines[OF assms this]
    show ?thesis by (simp add: priv_factor_to_variable_messages_def Some)
  qed
qed

lemma variable_to_factor_messages_refines:
  assumes "refines compute compute'"
  shows "refines (variable_to_factor_messages compute) (variable_to_factor_messages compute')"
  unfolding refines_def
proof (intro allI impI)
  fix w :: "'a world" and a b
  assume ne: "fst (variable_to_factor_messages compute w a b) \<noteq> Inl RecursionError"
  show "variable_to_factor_messages compute' w a b = variable_to_factor_messages compute w a b"
  proof (cases "messages w (name (objects w a), name (objects w b))")
    case None
    have "fst (compute w a b) \<noteq> Inl RecursionError"
      using ne None by (auto simp: variable_to_factor_messages_def split: prod.splits sum.splits)
    from refinesD[OF assms this] show ?thesis
      by (simp add: variable_to_factor_messages_def Let_def None)
  next
    case (Some m)
    then show ?thesis by (simp add: variable_to_factor_messages_def)
  qed
qed

lemma factor_to_variable_message_refines:
  assumes "refines compute compute'"
  shows "refines (factor_to_variable_message compute) (factor_to_variable_message compute')"
  unfolding refines_def
proof (intro allI impI)
  fix w :: "'a world" and a b
  assume ne: "fst (factor_to_variable_message compute w a b) \<noteq> Inl RecursionError"
  show "factor_to_variable_message compute' w a b = factor_to_variable_message compute w a b"
  proof (cases "messages w (name (objects w a), name (objects w b))")
    case None
    have "fst (compute w a b) \<noteq> Inl RecursionError"
      using ne None by (auto simp: factor_to_variable_message_def split: prod.splits sum.splits)
    from refinesD[OF assms this] show ?thesis
      by (simp add: factor_to_variable_message_def Let_def None)
  next
    case (Some m)
    then show ?thesis by (simp add: factor_to_variable_message_def)
  qed
qed

lemma send_deeper:
  "refines (send_variable_to_factor depth) (send_variable_to_factor (Suc depth)) \<and>
   refines (send_factor_to_variable depth) (send_factor_to_variable (Suc depth))"
proof (induction depth)
  case 0
  show ?case by (simp add: refines_def)
next
  case (Suc depth)
  have e1: "send_variable_to_factor (Suc n) =
          variable_to_factor_messages
            (priv_variable_to_factor_messages (\<lambda>w' f v. send_factor_to_variable n w' f v))" for n
    by (intro ext) simp
  have e2: "send_factor_to_variable (Suc n) =
          factor_to_variable_message
            (priv_factor_to_variable_messages (\<lambda>w' v f. send_variable_to_factor n w' v f))" for n
    by (intro ext) simp
  have 1: "refines (send_variable_to_factor (Suc depth)) (send_variable_to_factor (Suc (Suc depth)))"
    unfolding e1
    by (rule variable_to_factor_messages_refines, rule priv_variable_to_factor_refines)
       (rule conjunct2[OF Suc])
  have 2: "refines (send_factor_to_variable (Suc depth)) (send_factor_to_variable (Suc (Suc depth)))"
    unfolding e2
    by (rule factor_to_variable_message_refines, rule priv_factor_to_variable_refines)
       (rule conjunct1[OF Suc])
  show ?case using 1 2 by (rule conjI)
qed

lemma marginal_deeper:
  assumes "fst (marginal depth w v) \<noteq> Inl RecursionError"
  shows "marginal (Suc depth) w v = marginal depth w v"
proof -
  let ?s = "\<lambda>w' f v. send_factor_to_variable depth w' f v"
  let ?s' = "\<lambda>w' f v. send_factor_to_variable (Suc depth) w' f v"
  have r: "refines ?s ?s'" by (rule conjunct2[OF send_deeper[of depth]])
  have "fst (incoming ?s w (neighbors (objects w v)) v) \<noteq> Inl RecursionError"
    using assms by (auto simp: marginal_def priv_marginal_def split: prod.splits sum.splits)
  from incoming_refines[OF r this] show ?thesis
    by (simp add: marginal_def priv_marginal_def)
qed

lemma marginal_enough_depth:
  assumes "fst (marginal d0 w v) \<noteq> Inl RecursionError" and "d0 \<le> depth"
  shows "marginal depth w v = marginal d0 w v"
  using assms(2)
proof (induction depth rule: dec_induct)
  case base
  show ?case by simp
next
  case (step n)
  have "fst (marginal n w v) \<noteq> Inl RecursionError" using step.IH assms(1) by simp
  from marginal_deeper[OF this] show ?case using step.IH by simp
qed

text \<open>
  C1. On the graph built from \<open>p(h1)p(h2|h1)p(v1|h1)p(v2|h2)\<close> with the distributions of
  the example, at every recursion depth from 6 on, the marginal of \<open>h1\<close> is
  \<open>[0.2, 0.8]\<close> and the marginal of \<open>v2\<close> is \<open>[0.23, 0.77]\<close>, exactly.
\<close>

theorem chain_marginals:
  "6 \<le> depth \<longrightarrow>
     fst (marginal depth chain_world 0) =
       Inr \<lparr>probs = \<lparr>shape = [2], flat = [2/10, 8/10]\<rparr>, axes_labels = [''h1'']\<rparr> \<and>
     fst (marginal depth chain_world 3) =
       Inr \<lparr>probs = \<lparr>shape = [2], flat = [23/100, 77/100]\<rparr>, axes_labels = [''v2'']\<rparr>"
proof
  assume d: "6 \<le> depth"
  have 1: "fst (marginal 6 chain_world 0) =
     Inr \<lparr>probs = \<lparr>shape = [2], flat = [2/10, 8/10]\<rparr>, axes_labels = [''h1'']\<rparr>"
    by code_simp
  have 2: "fst (marginal 6 chain_world 3) =
     Inr \<lparr>probs = \<lparr>shape = [2], flat = [23/100, 77/100]\<rparr>, axes_labels = [''v2'']\<rparr>"
    by code_simp
  have "marginal depth chain_world 0 = marginal 6 chain_world 0"
    by (rule marginal_enough_depth[OF _ d]) (simp add: 1)
  moreover have "marginal depth chain_world 3 = marginal 6 chain_world 3"
    by (rule marginal_enough_depth[OF _ d]) (simp add: 2)
  ultimately show "fst (marginal depth chain_world 0) =
       Inr \<lparr>probs = \<lparr>shape = [2], flat = [2/10, 8/10]\<rparr>, axes_labels = [''h1'']\<rparr> \<and>
     fst (marginal depth chain_world 3) =
       Inr \<lparr>probs = \<lparr>shape = [2], flat = [23/100, 77/100]\<rparr>, axes_labels = [''v2'']\<rparr>"
    using 1 2 by simp
qed

section \<open>The example graph\<close>

theorem chain_marginals_witness:
  "(6::nat) \<le> 9 \<and>
   fst (marginal 9 chain_world 0) =
     Inr \<lparr>probs = \<lparr>shape = [2], flat = [2/10, 8/10]\<rparr>, axes_labels = [''h1'']\<rparr> \<and>
   fst (marginal 9 chain_world 3) =
     Inr \<lparr>probs = \<lparr>shape = [2], flat = [23/100, 77/100]\<rparr>, axes_labels = [''v2'']\<rparr>"
  using chain_marginals[of 9] by simp

text \<open>The cache after the marginal of \<open>v2\<close>: the seven messages the notebook shows.\<close>

lemma chain_cache_after_v2:
  "cache_view after_v2
     [(''p(h1)'', ''h1''), (''v1'', ''p(v1|h1)''), (''p(v1|h1)'', ''h1''), (''h1'', ''p(h2|h1)''),
      (''p(h2|h1)'', ''h2''), (''h2'', ''p(v2|h2)''), (''p(v2|h2)'', ''v2'')] =
     [Some \<lparr>shape = [2], flat = [2/10, 8/10]\<rparr>, Some (scalar 1), Some \<lparr>shape = [2], flat = [1, 1]\<rparr>,
      Some \<lparr>shape = [2], flat = [2/10, 8/10]\<rparr>, Some \<lparr>shape = [2], flat = [26/100, 74/100]\<rparr>,
      Some \<lparr>shape = [2], flat = [26/100, 74/100]\<rparr>, Some \<lparr>shape = [2], flat = [23/100, 77/100]\<rparr>]"
  by code_simp

theorem cached_message_is_reused_witness:
  "messages after_v2 (name (objects after_v2 1), name (objects after_v2 7)) =
     Some \<lparr>shape = [2], flat = [26/100, 74/100]\<rparr> \<and>
   variable_to_factor_messages
       (priv_variable_to_factor_messages (\<lambda>w f v. send_factor_to_variable 5 w f v)) after_v2 1 7 =
     (Inr \<lparr>shape = [2], flat = [26/100, 74/100]\<rparr>, after_v2) \<and>
   messages after_v2 (name (objects after_v2 7), name (objects after_v2 3)) =
     Some \<lparr>shape = [2], flat = [23/100, 77/100]\<rparr> \<and>
   factor_to_variable_message
       (priv_factor_to_variable_messages (\<lambda>w v f. send_variable_to_factor 5 w v f)) after_v2 7 3 =
     (Inr \<lparr>shape = [2], flat = [23/100, 77/100]\<rparr>, after_v2) \<and>
   fst (send_variable_to_factor 6 chain_world 2 6) = Inr (scalar 1) \<and>
   send_variable_to_factor 3 (snd (send_variable_to_factor 6 chain_world 2 6)) 2 6 =
     (Inr (scalar 1), snd (send_variable_to_factor 6 chain_world 2 6)) \<and>
   fst (send_factor_to_variable 6 chain_world 4 0) = Inr \<lparr>shape = [2], flat = [2/10, 8/10]\<rparr> \<and>
   send_factor_to_variable 3 (snd (send_factor_to_variable 6 chain_world 4 0)) 4 0 =
     (Inr \<lparr>shape = [2], flat = [2/10, 8/10]\<rparr>, snd (send_factor_to_variable 6 chain_world 4 0)) \<and>
   extends chain_world
     (snd (variable_to_factor_messages
             (priv_variable_to_factor_messages (\<lambda>w f v. send_factor_to_variable 5 w f v))
             chain_world 0 5)) \<and>
   extends chain_world (fold serve [Marginal 6 3, VariableToFactor 6 2 6, Marginal 6 0] chain_world) \<and>
   send_variable_to_factor (Suc 0)
       (fold serve [Marginal 6 3, FactorToVariable 6 4 0, Marginal 6 0]
          (snd (send_variable_to_factor 6 chain_world 2 6))) 2 6 =
     (Inr (scalar 1),
      fold serve [Marginal 6 3, FactorToVariable 6 4 0, Marginal 6 0]
        (snd (send_variable_to_factor 6 chain_world 2 6))) \<and>
   send_factor_to_variable (Suc 0)
       (fold serve [Marginal 6 3, VariableToFactor 6 2 6, Marginal 6 0]
          (snd (send_factor_to_variable 6 chain_world 4 0))) 4 0 =
     (Inr \<lparr>shape = [2], flat = [2/10, 8/10]\<rparr>,
      fold serve [Marginal 6 3, VariableToFactor 6 2 6, Marginal 6 0]
        (snd (send_factor_to_variable 6 chain_world 4 0))) \<and>
   fst (marginal 6 chain_world 3) =
     Inr \<lparr>probs = \<lparr>shape = [2], flat = [23/100, 77/100]\<rparr>, axes_labels = [''v2'']\<rparr> \<and>
   marginal (Suc 0) (fold serve [Marginal 6 0, Marginal 6 3, Marginal 6 1] after_v2) 3 =
     (Inr \<lparr>probs = \<lparr>shape = [2], flat = [23/100, 77/100]\<rparr>, axes_labels = [''v2'']\<rparr>,
      fold serve [Marginal 6 0, Marginal 6 3, Marginal 6 1] after_v2)"
proof -
  let ?cv = "priv_variable_to_factor_messages (\<lambda>w f v. send_factor_to_variable 5 w f v)"
  let ?cf = "priv_factor_to_variable_messages (\<lambda>w v f. send_variable_to_factor 5 w v f)"
  let ?cv' = "priv_variable_to_factor_messages (\<lambda>w f v. send_factor_to_variable 2 w f v)"
  let ?cf' = "priv_factor_to_variable_messages (\<lambda>w v f. send_variable_to_factor 2 w v f)"
  let ?m1 = "\<lparr>shape = [2], flat = [26/100, 74/100]\<rparr>"
  let ?m2 = "\<lparr>shape = [2], flat = [23/100, 77/100]\<rparr>"
  let ?m3 = "\<lparr>shape = [2], flat = [2/10, 8/10]\<rparr>"
  let ?p = "\<lparr>probs = \<lparr>shape = [2], flat = [23/100, 77/100]\<rparr>, axes_labels = [''v2'']\<rparr>"
  let ?w1 = "snd (send_variable_to_factor 6 chain_world 2 6)"
  let ?w2 = "snd (send_factor_to_variable 6 chain_world 4 0)"
  let ?rs0 = "[Marginal 6 3, VariableToFactor 6 2 6, Marginal 6 0]"
  let ?rs1 = "[Marginal 6 3, FactorToVariable 6 4 0, Marginal 6 0]"
  let ?rs3 = "[Marginal 6 0, Marginal 6 3, Marginal 6 1]"
  have s6: "(6::nat) = Suc 5" and s3: "(3::nat) = Suc 2" by simp_all
  have e6v: "send_variable_to_factor 6 = variable_to_factor_messages ?cv"
    by (subst s6) (rule send_Suc)
  have e6f: "send_factor_to_variable 6 = factor_to_variable_message ?cf"
    by (subst s6) (rule send_Suc)
  have e3v: "send_variable_to_factor 3 = variable_to_factor_messages ?cv'"
    by (subst s3) (rule send_Suc)
  have e3f: "send_factor_to_variable 3 = factor_to_variable_message ?cf'"
    by (subst s3) (rule send_Suc)
  have a: "messages after_v2 (name (objects after_v2 1), name (objects after_v2 7)) = Some ?m1"
    by code_simp
  have b: "messages after_v2 (name (objects after_v2 7), name (objects after_v2 3)) = Some ?m2"
    by code_simp
  have c: "fst (send_variable_to_factor 6 chain_world 2 6) = Inr (scalar 1)" by code_simp
  have d: "fst (send_factor_to_variable 6 chain_world 4 0) = Inr ?m3" by code_simp
  have g: "fst (marginal 6 chain_world 3) = Inr ?p" by code_simp
  have c': "variable_to_factor_messages ?cv chain_world 2 6 = (Inr (scalar 1), ?w1)"
    using c unfolding e6v by (metis prod.collapse)
  have d': "factor_to_variable_message ?cf chain_world 4 0 = (Inr ?m3, ?w2)"
    using d unfolding e6f by (metis prod.collapse)
  have c'': "send_variable_to_factor 6 chain_world 2 6 = (Inr (scalar 1), ?w1)"
    using c by (metis prod.collapse)
  have d'': "send_factor_to_variable 6 chain_world 4 0 = (Inr ?m3, ?w2)"
    using d by (metis prod.collapse)
  have g': "marginal 6 chain_world 3 = (Inr ?p, after_v2)"
    using g unfolding after_v2_def by (metis prod.collapse)
  have o1: "objects ?w1 = objects chain_world" by (rule send_objects)
  have o2: "objects ?w2 = objects chain_world" by (rule send_objects)
  have ext: "\<forall>x a b. extends x (snd (?cv x a b))"
    using priv_variable_to_factor_extends[of "\<lambda>w f v. send_factor_to_variable 5 w f v"]
          send_caching[of 5] cachingD1 by blast
  note T = cached_message_is_reused
  have n1: "name (objects ?w1 2) = name (objects chain_world 2) \<and>
            name (objects ?w1 6) = name (objects chain_world 6) \<and> extends ?w1 ?w1"
    by (simp add: o1)
  have n2: "name (objects ?w2 0) = name (objects chain_world 0) \<and>
            name (objects ?w2 4) = name (objects chain_world 4) \<and> extends ?w2 ?w2"
    by (simp add: o2)
  have 1: "variable_to_factor_messages ?cv after_v2 1 7 = (Inr ?m1, after_v2)"
    by (rule T[THEN conjunct1, THEN mp, OF a])
  have 2: "factor_to_variable_message ?cf after_v2 7 3 = (Inr ?m2, after_v2)"
    by (rule T[THEN conjunct2, THEN conjunct1, THEN mp, OF b])
  have 3: "variable_to_factor_messages ?cv' ?w1 2 6 = (Inr (scalar 1), ?w1)"
    by (rule T[THEN conjunct2, THEN conjunct2, THEN conjunct1, THEN mp, OF c',
               THEN conjunct2, THEN mp, OF n1])
  have 4: "factor_to_variable_message ?cf' ?w2 4 0 = (Inr ?m3, ?w2)"
    by (rule T[THEN conjunct2, THEN conjunct2, THEN conjunct2, THEN conjunct1, THEN mp, OF d',
               THEN conjunct2, THEN mp, OF n2])
  have 5: "extends chain_world (snd (variable_to_factor_messages ?cv chain_world 0 5))"
    by (rule T[THEN conjunct2, THEN conjunct2, THEN conjunct2, THEN conjunct2, THEN conjunct1,
               THEN mp, OF ext, THEN conjunct1])
  have 6: "extends chain_world (fold serve ?rs0 chain_world)"
    by (rule T[THEN conjunct2, THEN conjunct2, THEN conjunct2, THEN conjunct2, THEN conjunct2,
               THEN conjunct1])
  have 7: "send_variable_to_factor (Suc 0) (fold serve ?rs1 ?w1) 2 6 =
             (Inr (scalar 1), fold serve ?rs1 ?w1)"
    by (rule T[THEN conjunct2, THEN conjunct2, THEN conjunct2, THEN conjunct2, THEN conjunct2,
               THEN conjunct2, THEN conjunct1, THEN mp, OF c'', THEN conjunct2])
  have 8: "send_factor_to_variable (Suc 0) (fold serve ?rs0 ?w2) 4 0 = (Inr ?m3, fold serve ?rs0 ?w2)"
    by (rule T[THEN conjunct2, THEN conjunct2, THEN conjunct2, THEN conjunct2, THEN conjunct2,
               THEN conjunct2, THEN conjunct2, THEN conjunct1, THEN mp, OF d'', THEN conjunct2])
  have 9: "marginal (Suc 0) (fold serve ?rs3 after_v2) 3 = (Inr ?p, fold serve ?rs3 after_v2)"
    by (rule T[THEN conjunct2, THEN conjunct2, THEN conjunct2, THEN conjunct2, THEN conjunct2,
               THEN conjunct2, THEN conjunct2, THEN conjunct2, THEN mp, OF g'])
  show ?thesis
    by (intro conjI; (rule a b c d g 1 2 3[folded e3v] 4[folded e3f] 5 6 7 8 9))
qed

theorem variable_to_factor_is_product_witness:
  "messages chain_world (name (objects chain_world 2), name (objects chain_world 6)) = None \<and>
   filter (\<lambda>g. g \<noteq> 6) (neighbors (objects chain_world 2)) = [] \<and>
   send_variable_to_factor 6 chain_world 2 6 =
     (Inr (scalar 1),
      chain_world\<lparr>messages := (messages chain_world)
                     ((name (objects chain_world 2), name (objects chain_world 6)) \<mapsto> scalar 1)\<rparr>) \<and>
   (name (objects chain_world 2), name (objects chain_world 6)) = (''v1'', ''p(v1|h1)'') \<and>
   messages chain_world (name (objects chain_world 0), name (objects chain_world 5)) = None \<and>
   filter (\<lambda>g. g \<noteq> 5) (neighbors (objects chain_world 0)) = [4, 6] \<and>
   fst (incoming (send_factor_to_variable 5) chain_world [4, 6] 0) =
     Inr [\<lparr>shape = [2], flat = [2/10, 8/10]\<rparr>, \<lparr>shape = [2], flat = [1, 1]\<rparr>] \<and>
   (\<exists>r. fst (send_variable_to_factor 6 chain_world 0 5) = Inr r \<and> shape r = [2] \<and>
        length (flat r) = 2 \<and> flat r ! 0 = 2/10 * 1 \<and> flat r ! 1 = 8/10 * 1) \<and>
   fst (send_variable_to_factor 6 chain_world 0 5) = Inr \<lparr>shape = [2], flat = [2/10, 8/10]\<rparr>"
proof -
  let ?ms = "[\<lparr>shape = [2], flat = [2/10, 8/10]\<rparr>, \<lparr>shape = [2], flat = [1, 1]\<rparr>] :: ndarray list"
  let ?w1 = "snd (incoming (send_factor_to_variable 5) chain_world [4, 6] 0)"
  have s6: "(6::nat) = Suc 5" by simp
  have a: "messages chain_world (name (objects chain_world 2), name (objects chain_world 6)) = None"
    by code_simp
  have b: "filter (\<lambda>g. g \<noteq> 6) (neighbors (objects chain_world 2)) = []" by code_simp
  have k: "(name (objects chain_world 2), name (objects chain_world 6)) = (''v1'', ''p(v1|h1)'')"
    by code_simp
  have c: "messages chain_world (name (objects chain_world 0), name (objects chain_world 5)) = None"
    by code_simp
  have d: "filter (\<lambda>g. g \<noteq> 5) (neighbors (objects chain_world 0)) = [4, 6]" by code_simp
  have e: "fst (incoming (send_factor_to_variable 5) chain_world [4, 6] 0) = Inr ?ms" by code_simp
  have g: "fst (send_variable_to_factor 6 chain_world 0 5) = Inr \<lparr>shape = [2], flat = [2/10, 8/10]\<rparr>"
    by code_simp
  have e': "incoming (send_factor_to_variable 5) chain_world
              (filter (\<lambda>g. g \<noteq> 5) (neighbors (objects chain_world 0))) 0 = (Inr ?ms, ?w1)"
    unfolding d using e by (metis prod.collapse)
  have sh: "?ms \<noteq> [] \<and> (\<forall>m \<in> set ?ms. shape m = [2])" by simp
  from variable_to_factor_is_product[OF a, of 5] b
  have 1: "send_variable_to_factor (Suc 5) chain_world 2 6 =
     (Inr (scalar 1),
      chain_world\<lparr>messages := (messages chain_world)
                     ((name (objects chain_world 2), name (objects chain_world 6)) \<mapsto> scalar 1)\<rparr>)"
    by blast
  from variable_to_factor_is_product[OF c, of 5 _ ?w1 ?ms "[2]"] e' sh
  obtain r where
    2: "send_variable_to_factor (Suc 5) chain_world 0 5 =
          (Inr r, ?w1\<lparr>messages := (messages ?w1)
                      ((name (objects chain_world 0), name (objects chain_world 5)) \<mapsto> r)\<rparr>)"
    and 3: "shape r = [2]" "length (flat r) = prod_list [2]"
    and 4: "\<forall>i < prod_list [2]. flat r ! i = prod_list (map (\<lambda>m. flat m ! i) ?ms)"
    by blast
  have 5: "flat r ! 0 = 2/10 * 1" "flat r ! 1 = 8/10 * 1" using 4 by simp_all
  have 6: "fst (send_variable_to_factor 6 chain_world 0 5) = Inr r"
    using 2 unfolding s6 by simp
  have 7: "length (flat r) = 2" using 3(2) by simp
  show ?thesis using a b k c d e g 1[folded s6] 3(1) 5 6 7 by blast
qed

theorem message_passing_leaves_tensors_alone_witness:
  "objects (snd (send_factor_to_variable 6 chain_world 7 3)) = objects chain_world \<and>
   allocated nb_mem 0 \<and> allocated nb_mem 1 \<and>
   load nb_mem 0 = nb_p_v1_given_h1 \<and> load nb_mem 1 = nb_p_h1 \<and>
   fst (multiply_at nb_mem 0 1) = Inr 2 \<and>
   load (snd (multiply_at nb_mem 0 1)) 0 = nb_p_v1_given_h1 \<and>
   load (snd (multiply_at nb_mem 0 1)) 1 = nb_p_h1 \<and>
   load (snd (multiply_at nb_mem 0 1)) 2 = nb_p_v1_h1 \<and>
   fst (tensors (snd (multiply_at nb_mem 0 1)) 2) = next_array nb_mem"
proof -
  have a: "allocated nb_mem 0" "allocated nb_mem 1" by code_simp+
  have l: "load nb_mem 0 = nb_p_v1_given_h1" "load nb_mem 1 = nb_p_h1" by code_simp+
  have r: "fst (multiply_at nb_mem 0 1) = Inr 2" by code_simp
  have n: "next_tensor nb_mem = 2" by code_simp
  have m: "multiply nb_p_v1_given_h1 nb_p_h1 = Inr nb_p_v1_h1" by code_simp
  note t = message_passing_leaves_tensors_alone[of 6 chain_world 7 3 nb_mem 0 1]
  have 1: "objects (snd (send_factor_to_variable 6 chain_world 7 3)) = objects chain_world"
    using t by blast
  have 2: "load (snd (multiply_at nb_mem 0 1)) 0 = load nb_mem 0"
          "load (snd (multiply_at nb_mem 0 1)) 1 = load nb_mem 1"
    using t a by blast+
  have 3: "fst (tensors (snd (multiply_at nb_mem 0 1)) 2) = next_array nb_mem"
          "multiply (load nb_mem 0) (load nb_mem 1) = Inr (load (snd (multiply_at nb_mem 0 1)) 2)"
    using t a r by blast+
  have 4: "load (snd (multiply_at nb_mem 0 1)) 2 = nb_p_v1_h1"
    using 3(2) m unfolding l by simp
  show ?thesis using 1 2 3(1) 4 a l r by simp
qed

end
